theory Spec2Isabelle
  imports Main
begin

section \<open>Download coordinator\<close>

subsection \<open>Deduplicated scheduling (\<open>downloader.Schedule\<close>)\<close>

text \<open>
  The Go type \<open>downloader\<close> holds a wait group, a semaphore channel of capacity
  \<open>concurrency\<close> and the \<open>seen\<close> map. \<open>Schedule\<close> does \<open>seen.LoadOrStore(url)\<close> and
  returns when the key was present; otherwise it starts one goroutine, which calls
  \<open>downloadFile(url, dest)\<close> exactly once. The model keeps the key set of \<open>seen\<close>, the
  capacity of the semaphore, and the list of goroutines started so far, each given by the
  pair \<open>(url, dest)\<close> it passes to \<open>downloadFile\<close>. Calls of \<open>Schedule\<close> are taken one
  after the other, as \<open>LoadOrStore\<close> is atomic.
\<close>

record downloader =
  sem_cap :: int
  seen :: "string set"
  started :: "(string \<times> string) list"

definition newDownloader :: "int \<Rightarrow> downloader" where
  "newDownloader concurrency =
     \<lparr>sem_cap = (if concurrency < 1 then 1 else concurrency), seen = {}, started = []\<rparr>"

definition Schedule :: "downloader \<Rightarrow> string \<Rightarrow> string \<Rightarrow> downloader" where
  "Schedule d url dest =
     (if url \<in> seen d then d
      else d\<lparr>seen := insert url (seen d), started := started d @ [(url, dest)]\<rparr>)"

text \<open>A sequence of \<open>Schedule\<close> calls, in the order they are made.\<close>

fun ScheduleAll :: "downloader \<Rightarrow> (string \<times> string) list \<Rightarrow> downloader" where
  "ScheduleAll d [] = d"
| "ScheduleAll d (c # cs) = ScheduleAll (Schedule d (fst c) (snd c)) cs"

subsection \<open>One download with retries (\<open>downloadFile\<close>)\<close>

datatype error = ErrNewRequest | ErrTransport | ErrHTTP int | ErrMkdirAll | ErrCreate | ErrCopy

text \<open>
  What the outside world answers to the \<open>k\<close>-th pass of the loop: the result of
  \<open>client.Do\<close> (a transport error or a response with its status code), whether
  \<open>os.MkdirAll\<close> and \<open>os.Create\<close> succeed, and what \<open>io.Copy\<close> does (the bytes it
  wrote to the file, and whether it then failed).
\<close>

datatype do_result = DoErr | DoResp int

record attempt_io =
  resp :: do_result
  mkdirAll_ok :: bool
  create_ok :: bool
  copy_written :: string
  copy_ok :: bool

record env =
  newRequest_ok :: bool
  io :: "nat \<Rightarrow> attempt_io"

text \<open>
  The state a download acts on: the regular files (path to content), the number of
  \<open>client.Do\<close> calls made, and the seconds passed to \<open>time.Sleep\<close>, in order.
  \<open>os.Remove\<close> of the file just created is taken to succeed, and no other task touches
  the destination meanwhile.
\<close>

record dl_state =
  files :: "string \<rightharpoonup> string"
  attempts :: nat
  sleeps :: "nat list"

text \<open>
  The closure run on a response. It returns the new \<open>lastErr\<close>, the new value of the loop
  variable \<open>attempt\<close> (set to 3 on a client error) and the state. The deferred function
  registered after \<open>os.Create\<close> closes the file and removes it when \<open>lastErr\<close> is set.
\<close>

definition onResponse ::
  "attempt_io \<Rightarrow> string \<Rightarrow> int \<Rightarrow> nat \<Rightarrow> dl_state \<Rightarrow> error option \<times> nat \<times> dl_state" where
  "onResponse a dest status attempt st =
     (if status \<ge> 500 then (Some (ErrHTTP status), attempt, st)
      else if status \<ge> 400 then (Some (ErrHTTP status), 3, st)
      else if \<not> mkdirAll_ok a then (Some ErrMkdirAll, attempt, st)
      else if \<not> create_ok a then (Some ErrCreate, attempt, st)
      else
        let created = st\<lparr>files := (files st)(dest \<mapsto> [])\<rparr>;
            copied = created\<lparr>files := (files created)(dest \<mapsto> copy_written a)\<rparr>
        in if \<not> copy_ok a
           then (Some ErrCopy, attempt, copied\<lparr>files := (files copied)(dest := None)\<rparr>)
           else (None, attempt, copied))"

definition sleepAfter :: "nat \<Rightarrow> dl_state \<Rightarrow> dl_state" where
  "sleepAfter attempt st =
     (if attempt < 3 then st\<lparr>sleeps := sleeps st @ [attempt * 2]\<rparr> else st)"

function downloadLoop ::
  "env \<Rightarrow> string \<Rightarrow> nat \<Rightarrow> error option \<Rightarrow> dl_state \<Rightarrow> error option \<times> dl_state" where
  "downloadLoop e dest attempt lastErr st =
     (if attempt \<le> 3 then
        if \<not> newRequest_ok e then (Some ErrNewRequest, st)
        else
          let st1 = st\<lparr>attempts := attempts st + 1\<rparr> in
          case resp (io e attempt) of
            DoErr \<Rightarrow>
              if attempt < 3
              then downloadLoop e dest (attempt + 1) (Some ErrTransport) (sleepAfter attempt st1)
              else (Some ErrTransport, st1)
          | DoResp status \<Rightarrow>
              (case onResponse (io e attempt) dest status attempt st1 of
                 (None, attempt', st2) \<Rightarrow> (None, st2)
               | (Some err, attempt', st2) \<Rightarrow>
                   downloadLoop e dest (attempt' + 1) (Some err) (sleepAfter attempt' st2))
      else (lastErr, st))"
  by pat_completeness auto
termination
  by (relation "measure (\<lambda>(e, dest, attempt, lastErr, st). 4 - attempt)")
     (auto simp: onResponse_def Let_def split: if_splits)

declare downloadLoop.simps [simp del]

definition downloadFile :: "env \<Rightarrow> string \<Rightarrow> dl_state \<Rightarrow> error option \<times> dl_state" where
  "downloadFile e dest st = downloadLoop e dest 1 None st"

definition retried :: "attempt_io \<Rightarrow> bool" where
  "retried a = (case resp a of DoErr \<Rightarrow> True | DoResp status \<Rightarrow> status \<ge> 500)"

definition clientError :: "attempt_io \<Rightarrow> bool" where
  "clientError a = (case resp a of DoErr \<Rightarrow> False | DoResp status \<Rightarrow> 400 \<le> status \<and> status < 500)"

definition succeeds :: "attempt_io \<Rightarrow> bool" where
  "succeeds a = (case resp a of DoErr \<Rightarrow> False
     | DoResp status \<Rightarrow> status < 400 \<and> mkdirAll_ok a \<and> create_ok a \<and> copy_ok a)"


text \<open>A response with the given status whose file operations all succeed.\<close>

definition respond :: "int \<Rightarrow> attempt_io" where
  "respond status =
     \<lparr>resp = DoResp status, mkdirAll_ok = True, create_ok = True,
      copy_written = ''data'', copy_ok = True\<rparr>"


definition fresh :: dl_state where
  "fresh = \<lparr>files = Map.empty, attempts = 0, sleeps = []\<rparr>"

section \<open>The Go standard library functions the program calls\<close>

text \<open>
  A Go \<open>string\<close> is a sequence of bytes; it is modelled as a \<open>string\<close> (a list of 8-bit
  characters). The functions below follow the Go 1.20 sources of the packages \<open>strings\<close>
  and \<open>path\<close>. \<open>path/filepath\<close> is taken on a system whose separator is the slash, where
  \<open>filepath.Join\<close> is \<open>path.Join\<close> and \<open>filepath.ToSlash\<close> changes nothing.
\<close>

subsection \<open>\<open>strings\<close>\<close>

text \<open>
  \<open>strings.TrimSpace\<close> removes leading and trailing white space as Unicode defines it
  (\<open>unicode.IsSpace\<close>). The list holds the UTF-8 encodings of these code points:
  U+0009 to U+000D, U+0020, U+0085, U+00A0, U+1680, U+2000 to U+200A, U+2028, U+2029,
  U+202F, U+205F and U+3000.
\<close>

definition spaceRunes :: "string list" where
  "spaceRunes =
     [[CHR 0x09], [CHR 0x0A], [CHR 0x0B], [CHR 0x0C], [CHR 0x0D], [CHR 0x20],
      [CHR 0xC2, CHR 0x85], [CHR 0xC2, CHR 0xA0], [CHR 0xE1, CHR 0x9A, CHR 0x80],
      [CHR 0xE2, CHR 0x80, CHR 0x80], [CHR 0xE2, CHR 0x80, CHR 0x81],
      [CHR 0xE2, CHR 0x80, CHR 0x82], [CHR 0xE2, CHR 0x80, CHR 0x83],
      [CHR 0xE2, CHR 0x80, CHR 0x84], [CHR 0xE2, CHR 0x80, CHR 0x85],
      [CHR 0xE2, CHR 0x80, CHR 0x86], [CHR 0xE2, CHR 0x80, CHR 0x87],
      [CHR 0xE2, CHR 0x80, CHR 0x88], [CHR 0xE2, CHR 0x80, CHR 0x89],
      [CHR 0xE2, CHR 0x80, CHR 0x8A], [CHR 0xE2, CHR 0x80, CHR 0xA8],
      [CHR 0xE2, CHR 0x80, CHR 0xA9], [CHR 0xE2, CHR 0x80, CHR 0xAF],
      [CHR 0xE2, CHR 0x81, CHR 0x9F], [CHR 0xE3, CHR 0x80, CHR 0x80]]"

definition HasPrefix :: "string \<Rightarrow> string \<Rightarrow> bool" where
  "HasPrefix s p = (take (length p) s = p)"

definition HasSuffix :: "string \<Rightarrow> string \<Rightarrow> bool" where
  "HasSuffix s p = (length p \<le> length s \<and> drop (length s - length p) s = p)"

definition TrimSuffix :: "string \<Rightarrow> string \<Rightarrow> string" where
  "TrimSuffix s p = (if HasSuffix s p then take (length s - length p) s else s)"

text \<open>Removes, as long as one is there, a leading string of the list \<open>rs\<close>.\<close>

function stripLeft :: "string list \<Rightarrow> string \<Rightarrow> string" where
  "stripLeft rs s =
     (case find (\<lambda>r. r \<noteq> [] \<and> HasPrefix s r) rs of
        None \<Rightarrow> s
      | Some r \<Rightarrow> stripLeft rs (drop (length r) s))"
  by pat_completeness auto
termination
proof (relation "measure (\<lambda>(rs, s). length s)")
  show "wf (measure (\<lambda>(rs, s). length s))" by simp
next
  fix rs :: "string list" and s r :: string
  assume "find (\<lambda>r. r \<noteq> [] \<and> HasPrefix s r) rs = Some r"
  then have "r \<noteq> []" and "HasPrefix s r" by (auto simp: find_Some_iff)
  then have "length r > 0" and "length r \<le> length s"
    by (auto simp: HasPrefix_def) (metis length_take min.cobounded1)
  then have "length s - length r < length s" by linarith
  then show "((rs, drop (length r) s), (rs, s)) \<in> measure (\<lambda>(rs, s). length s)" by simp
qed

declare stripLeft.simps [simp del]

definition TrimSpace :: "string \<Rightarrow> string" where
  "TrimSpace s = rev (stripLeft (map rev spaceRunes) (rev (stripLeft spaceRunes s)))"

text \<open>\<open>strings.Contains(s, sub)\<close>.\<close>

fun Contains :: "string \<Rightarrow> string \<Rightarrow> bool" where
  "Contains [] sub = (sub = [])"
| "Contains (c # cs) sub = (HasPrefix (c # cs) sub \<or> Contains cs sub)"

subsection \<open>\<open>path\<close>\<close>

text \<open>
  \<open>path.Clean\<close>: the loop over the bytes of the path, with the output buffer \<open>out\<close> and
  the index \<open>dotdot\<close> below which \<open>..\<close> cannot backtrack. \<open>backtrack\<close> is the inner loop of
  the \<open>..\<close> case, started after \<open>out.w--\<close>.
\<close>

function backtrack :: "nat \<Rightarrow> string \<Rightarrow> nat \<Rightarrow> string" where
  "backtrack dotdot out w =
     (if w > dotdot \<and> out ! w \<noteq> CHR ''/'' then backtrack dotdot out (w - 1) else take w out)"
  by pat_completeness auto
termination
  by (relation "measure (\<lambda>(dotdot, out, w). w)") auto

declare backtrack.simps [simp del]

function cleanLoop :: "bool \<Rightarrow> nat \<Rightarrow> string \<Rightarrow> string \<Rightarrow> string" where
  "cleanLoop rooted dotdot out [] = out"
| "cleanLoop rooted dotdot out (c # rest) =
     (if c = CHR ''/'' then cleanLoop rooted dotdot out rest
      else if c = CHR ''.'' \<and> (rest = [] \<or> hd rest = CHR ''/'') then
        cleanLoop rooted dotdot out rest
      else if c = CHR ''.'' \<and> hd rest = CHR ''.'' \<and> (tl rest = [] \<or> hd (tl rest) = CHR ''/'') then
        (if length out > dotdot then
           cleanLoop rooted dotdot (backtrack dotdot out (length out - 1)) (tl rest)
         else if \<not> rooted then
           cleanLoop rooted (length ((if out \<noteq> [] then out @ ''/'' else out) @ ''..''))
             ((if out \<noteq> [] then out @ ''/'' else out) @ ''..'') (tl rest)
         else cleanLoop rooted dotdot out (tl rest))
      else
        cleanLoop rooted dotdot
          ((if rooted \<and> length out \<noteq> 1 \<or> \<not> rooted \<and> length out \<noteq> 0 then out @ ''/'' else out)
             @ takeWhile (\<lambda>x. x \<noteq> CHR ''/'') (c # rest))
          (dropWhile (\<lambda>x. x \<noteq> CHR ''/'') (c # rest)))"
  by pat_completeness auto
termination
proof (relation "measure (\<lambda>(rooted, dotdot, out, p). length p)")
  show "wf (measure (\<lambda>(rooted, dotdot, out, p). length p))" by simp
next
  fix c :: char and rest :: string
  assume "c \<noteq> CHR ''/''"
  then have "length (dropWhile (\<lambda>x. x \<noteq> CHR ''/'') (c # rest)) \<le> length rest"
    by (simp add: length_dropWhile_le)
  then show "\<And>rooted dotdot out. ((rooted, dotdot,
        (if rooted \<and> length out \<noteq> 1 \<or> \<not> rooted \<and> length out \<noteq> 0 then out @ ''/'' else out)
          @ takeWhile (\<lambda>x. x \<noteq> CHR ''/'') (c # rest),
        dropWhile (\<lambda>x. x \<noteq> CHR ''/'') (c # rest)), (rooted, dotdot, out, c # rest))
      \<in> measure (\<lambda>(rooted, dotdot, out, p). length p)"
    by simp
qed auto

declare cleanLoop.simps [simp del]

definition path_Clean :: "string \<Rightarrow> string" where
  "path_Clean p =
     (if p = [] then ''.''
      else
        let rooted = (hd p = CHR ''/'');
            out = (if rooted
                   then cleanLoop True 1 ''/'' (tl p)
                   else cleanLoop False 0 [] p)
        in if out = [] then ''.'' else out)"

text \<open>\<open>path.Base\<close>: trailing slashes are removed, then everything up to the last slash.\<close>

definition stripTrailingSlashes :: "string \<Rightarrow> string" where
  "stripTrailingSlashes p = rev (dropWhile (\<lambda>x. x = CHR ''/'') (rev p))"

definition afterLastSlash :: "string \<Rightarrow> string" where
  "afterLastSlash p = rev (takeWhile (\<lambda>x. x \<noteq> CHR ''/'') (rev p))"

definition uptoLastSlash :: "string \<Rightarrow> string" where
  "uptoLastSlash p = rev (dropWhile (\<lambda>x. x \<noteq> CHR ''/'') (rev p))"

definition path_Base :: "string \<Rightarrow> string" where
  "path_Base p =
     (if p = [] then ''.''
      else let q = afterLastSlash (stripTrailingSlashes p)
           in if q = [] then ''/'' else q)"

text \<open>\<open>path.Dir\<close> is \<open>Clean\<close> of the part up to and including the last slash.\<close>

definition path_Dir :: "string \<Rightarrow> string" where
  "path_Dir p = path_Clean (uptoLastSlash p)"

text \<open>\<open>path.Ext\<close>: from the last dot of the last element, or empty.\<close>

fun extScan :: "string \<Rightarrow> string \<Rightarrow> string" where
  "extScan [] acc = []"
| "extScan (c # cs) acc =
     (if c = CHR ''/'' then []
      else if c = CHR ''.'' then c # acc
      else extScan cs (c # acc))"

definition path_Ext :: "string \<Rightarrow> string" where
  "path_Ext p = extScan (rev p) []"

text \<open>
  \<open>path.Join\<close>: the elements from the first non-empty one on, separated by slashes, then
  \<open>Clean\<close>; the empty string when they are all empty.
\<close>

fun joinBuf :: "string \<Rightarrow> string list \<Rightarrow> string" where
  "joinBuf buf [] = buf"
| "joinBuf buf (e # es) =
     (if buf \<noteq> [] \<or> e \<noteq> []
      then joinBuf ((if buf \<noteq> [] then buf @ ''/'' else buf) @ e) es
      else joinBuf buf es)"

definition path_Join :: "string list \<Rightarrow> string" where
  "path_Join elem = (if concat elem = [] then [] else path_Clean (joinBuf [] elem))"

subsection \<open>\<open>fmt\<close> and \<open>regexp\<close>\<close>

definition isDigit :: "char \<Rightarrow> bool" where
  "isDigit c = (48 \<le> (of_char c :: nat) \<and> (of_char c :: nat) \<le> 57)"

definition isAlpha :: "char \<Rightarrow> bool" where
  "isAlpha c = (65 \<le> (of_char c :: nat) \<and> (of_char c :: nat) \<le> 90 \<or>
                97 \<le> (of_char c :: nat) \<and> (of_char c :: nat) \<le> 122)"

text \<open>The value of a string of decimal digits.\<close>

definition decimal :: "string \<Rightarrow> nat" where
  "decimal ds = foldl (\<lambda>n c. 10 * n + ((of_char c :: nat) - 48)) 0 ds"

text \<open>
  \<open>var w int; fmt.Sscanf(wStr, "%d", &w)\<close> on a non-empty string of digits, with the
  64-bit \<open>int\<close> of the usual platforms: \<open>w\<close> receives the value when it fits, and keeps
  its zero value when \<open>strconv.ParseInt\<close> reports a range error (the program ignores
  what \<open>Sscanf\<close> returns).
\<close>

definition Sscanf_d :: "string \<Rightarrow> int" where
  "Sscanf_d ds = (if decimal ds < 2 ^ 63 then int (decimal ds) else 0)"

text \<open>
  Go's \<open>regexp\<close> finds the leftmost match, and among the matches starting there the one a
  backtracking search finds first. In the three expressions of the program every greedy
  repetition is followed by something its own characters cannot start, so at a given start
  the search never needs to give characters back, and the match is found by reading
  each repetition as far as it goes. The character class \<open>\<^verbatim>\<open>\s\<close>\<close> is
  \<open>[\t\n\f\r ]\<close>; \<open>\<^verbatim>\<open>\d\<close>\<close> is \<open>[0-9]\<close>. Every byte of a multi-byte or invalid UTF-8
  sequence belongs to the class \<open>\<^verbatim>\<open>[^\s,]\<close>\<close>, so reading bytes gives the same matches as
  reading code points.
\<close>

definition reSpace :: "char \<Rightarrow> bool" where
  "reSpace c = (c = CHR 0x09 \<or> c = CHR 0x0A \<or> c = CHR 0x0C \<or> c = CHR 0x0D \<or> c = CHR 0x20)"

definition urlChar :: "char \<Rightarrow> bool" where
  "urlChar c = (\<not> reSpace c \<and> c \<noteq> CHR '','')"

text \<open>
  \<open>srcsetRe\<close>, \<open>\<^verbatim>\<open>,?\s*([^\s,]+)\s+(\d+)w\<close>\<close>, matched at the start of \<open>s\<close>: the two groups
  and the text after the match.
\<close>

definition srcsetMatchAt :: "string \<Rightarrow> (string \<times> string \<times> string) option" where
  "srcsetMatchAt s =
     (let s1 = (if s \<noteq> [] \<and> hd s = CHR '','' then tl s else s);
          s2 = dropWhile reSpace s1;
          u = takeWhile urlChar s2;
          s3 = dropWhile urlChar s2;
          s4 = dropWhile reSpace s3;
          ds = takeWhile isDigit s4;
          s5 = dropWhile isDigit s4
      in if u \<noteq> [] \<and> takeWhile reSpace s3 \<noteq> [] \<and> ds \<noteq> [] \<and> s5 \<noteq> [] \<and> hd s5 = CHR ''w''
         then Some (u, ds, tl s5) else None)"

lemma srcsetMatchAt_shorter:
  "srcsetMatchAt s = Some (u, ds, rest) \<Longrightarrow> length rest < length s"
proof -
  assume m: "srcsetMatchAt s = Some (u, ds, rest)"
  define s1 where "s1 = (if s \<noteq> [] \<and> hd s = CHR '','' then tl s else s)"
  define s2 where "s2 = dropWhile reSpace s1"
  define s3 where "s3 = dropWhile urlChar s2"
  define s4 where "s4 = dropWhile reSpace s3"
  define s5 where "s5 = dropWhile isDigit s4"
  have "length s1 \<le> length s" by (simp add: s1_def)
  moreover have "length s2 \<le> length s1" by (simp add: s2_def length_dropWhile_le)
  moreover have "length s3 \<le> length s2" by (simp add: s3_def length_dropWhile_le)
  moreover have "length s4 \<le> length s3" by (simp add: s4_def length_dropWhile_le)
  moreover have "length s5 \<le> length s4" by (simp add: s5_def length_dropWhile_le)
  moreover have "s5 \<noteq> []" and "rest = tl s5"
    using m unfolding srcsetMatchAt_def Let_def s1_def s2_def s3_def s4_def s5_def
    by (auto split: if_splits)
  then have "length rest < length s5" by (cases s5) simp_all
  ultimately show ?thesis by linarith
qed

text \<open>\<open>srcsetRe.FindAllStringSubmatch(s, -1)\<close>: the groups of the successive matches.\<close>

function srcsetFindAll :: "string \<Rightarrow> (string \<times> string) list" where
  "srcsetFindAll s =
     (case srcsetMatchAt s of
        Some (u, ds, rest) \<Rightarrow> (u, ds) # srcsetFindAll rest
      | None \<Rightarrow> (case s of [] \<Rightarrow> [] | c # t \<Rightarrow> srcsetFindAll t))"
  by pat_completeness auto
termination
  by (relation "measure length") (auto dest: srcsetMatchAt_shorter)

declare srcsetFindAll.simps [simp del]

text \<open>
  Whether the whole of \<open>s\<close> matches \<open>\<^verbatim>\<open>-[0-9]+\<close>\<close>, the optional last group of the two
  suffix expressions.
\<close>

definition dashDigits :: "string \<Rightarrow> bool" where
  "dashDigits s = (s \<noteq> [] \<and> hd s = CHR ''-'' \<and> tl s \<noteq> [] \<and> list_all isDigit (tl s))"

text \<open>
  Whether the whole of \<open>s\<close> matches \<open>\<^verbatim>\<open>-(?:\d+)x(?:\d+)(?:-[0-9]+)?\<close>\<close>, that is, whether
  \<open>wpSizeSuffixRe\<close> matches from the start of \<open>s\<close> to the end of the text.
\<close>

definition sizeSuffixMatch :: "string \<Rightarrow> bool" where
  "sizeSuffixMatch s =
     (s \<noteq> [] \<and> hd s = CHR ''-'' \<and>
      (let d1 = takeWhile isDigit (tl s); r1 = dropWhile isDigit (tl s)
       in d1 \<noteq> [] \<and> r1 \<noteq> [] \<and> hd r1 = CHR ''x'' \<and>
          (let d2 = takeWhile isDigit (tl r1); r2 = dropWhile isDigit (tl r1)
           in d2 \<noteq> [] \<and> (r2 = [] \<or> dashDigits r2))))"

text \<open>The same for \<open>wpScaledSuffixRe\<close>, \<open>\<^verbatim>\<open>-scaled(?:-[0-9]+)?$\<close>\<close>.\<close>

definition scaledSuffixMatch :: "string \<Rightarrow> bool" where
  "scaledSuffixMatch s =
     (HasPrefix s ''-scaled'' \<and> (drop 7 s = [] \<or> dashDigits (drop 7 s)))"

text \<open>
  \<open>re.ReplaceAllString(name, "")\<close> for an expression that ends in \<open>$\<close> and cannot match
  the empty string: the leftmost match runs to the end of the text and is the only one, so
  the result is the text before the first position from which the rest matches.
\<close>

fun cutSuffix :: "(string \<Rightarrow> bool) \<Rightarrow> string \<Rightarrow> string" where
  "cutSuffix m [] = []"
| "cutSuffix m (c # cs) = (if m (c # cs) then [] else c # cutSuffix m cs)"

subsection \<open>\<open>net/url\<close>\<close>

text \<open>
  \<open>url.Parse\<close> and \<open>(*URL).String\<close>, after the Go 1.20 source of \<open>net/url\<close>. A \<open>*Userinfo\<close>
  is the user name with the password when one is set.
\<close>

record URL =
  Scheme :: string
  Opaque :: string
  User :: "(string \<times> string option) option"
  Host :: string
  Path :: string
  RawPath :: string
  OmitHost :: bool
  ForceQuery :: bool
  RawQuery :: string
  Fragment :: string
  RawFragment :: string

definition emptyURL :: URL where
  "emptyURL = \<lparr>Scheme = [], Opaque = [], User = None, Host = [], Path = [], RawPath = [],
     OmitHost = False, ForceQuery = False, RawQuery = [], Fragment = [], RawFragment = []\<rparr>"

datatype url_error =
  InvalidControlCharacter | MissingProtocolScheme | ColonInFirstPathSegment
  | EscapeError string | InvalidHostError string | MissingBracket | InvalidPort string
  | InvalidUserinfo

datatype encoding =
  encodePath | encodePathSegment | encodeHost | encodeZone | encodeUserPassword
  | encodeQueryComponent | encodeFragment

definition ishex :: "char \<Rightarrow> bool" where
  "ishex c = (isDigit c \<or> 97 \<le> (of_char c :: nat) \<and> (of_char c :: nat) \<le> 102
                         \<or> 65 \<le> (of_char c :: nat) \<and> (of_char c :: nat) \<le> 70)"

definition unhex :: "char \<Rightarrow> nat" where
  "unhex c =
     (if isDigit c then of_char c - 48
      else if 97 \<le> (of_char c :: nat) \<and> (of_char c :: nat) \<le> 102 then of_char c - 97 + 10
      else if 65 \<le> (of_char c :: nat) \<and> (of_char c :: nat) \<le> 70 then of_char c - 65 + 10
      else 0)"

definition upperhex :: "nat \<Rightarrow> char" where
  "upperhex n = ''0123456789ABCDEF'' ! n"

definition shouldEscape :: "char \<Rightarrow> encoding \<Rightarrow> bool" where
  "shouldEscape c mode =
     (if isAlpha c \<or> isDigit c then False
      else if (mode = encodeHost \<or> mode = encodeZone) \<and> c \<in> set (''!$&'' @ [CHR 0x27] @ ''()*+,;=:[]<>'' @ [CHR 0x22])
        then False
      else if c \<in> set ''-_.~'' then False
      else if c \<in> set ''$&+,/:;=?@'' \<and> mode = encodePath then c = CHR ''?''
      else if c \<in> set ''$&+,/:;=?@'' \<and> mode = encodePathSegment then c \<in> set ''/;,?''
      else if c \<in> set ''$&+,/:;=?@'' \<and> mode = encodeUserPassword then c \<in> set ''@/?:''
      else if c \<in> set ''$&+,/:;=?@'' \<and> mode = encodeQueryComponent then True
      else if c \<in> set ''$&+,/:;=?@'' \<and> mode = encodeFragment then False
      else if mode = encodeFragment \<and> c \<in> set ''!()*'' then False
      else True)"

text \<open>The first pass of \<open>unescape\<close>: the error it returns, if any.\<close>

fun unescapeCheck :: "encoding \<Rightarrow> string \<Rightarrow> url_error option" where
  "unescapeCheck mode [] = None"
| "unescapeCheck mode (c # cs) =
     (if c = CHR ''%'' then
        (case cs of
           h1 # h2 # rest \<Rightarrow>
             if \<not> ishex h1 \<or> \<not> ishex h2 then Some (EscapeError (take 3 (c # cs)))
             else if mode = encodeHost \<and> unhex h1 < 8 \<and> [c, h1, h2] \<noteq> ''%25''
               then Some (EscapeError [c, h1, h2])
             else if mode = encodeZone \<and> [c, h1, h2] \<noteq> ''%25''
                     \<and> char_of (unhex h1 * 16 + unhex h2) \<noteq> CHR '' ''
                     \<and> shouldEscape (char_of (unhex h1 * 16 + unhex h2)) encodeHost
               then Some (EscapeError [c, h1, h2])
             else unescapeCheck mode rest
         | _ \<Rightarrow> Some (EscapeError (take 3 (c # cs))))
      else if c = CHR ''+'' then unescapeCheck mode cs
      else if (mode = encodeHost \<or> mode = encodeZone) \<and> (of_char c :: nat) < 128
              \<and> shouldEscape c encodeHost
        then Some (InvalidHostError [c])
      else unescapeCheck mode cs)"

text \<open>The second pass, on a string the first pass accepted.\<close>

fun unescapeDecode :: "encoding \<Rightarrow> string \<Rightarrow> string" where
  "unescapeDecode mode [] = []"
| "unescapeDecode mode (c # cs) =
     (if c = CHR ''%'' then
        (case cs of
           h1 # h2 # rest \<Rightarrow> char_of (unhex h1 * 16 + unhex h2) # unescapeDecode mode rest
         | _ \<Rightarrow> [])
      else if c = CHR ''+'' \<and> mode = encodeQueryComponent then CHR '' '' # unescapeDecode mode cs
      else c # unescapeDecode mode cs)"

definition unescape :: "string \<Rightarrow> encoding \<Rightarrow> url_error + string" where
  "unescape s mode =
     (case unescapeCheck mode s of Some e \<Rightarrow> Inl e | None \<Rightarrow> Inr (unescapeDecode mode s))"

definition escape :: "string \<Rightarrow> encoding \<Rightarrow> string" where
  "escape s mode =
     concat (map (\<lambda>c. if c = CHR '' '' \<and> mode = encodeQueryComponent then ''+''
                       else if shouldEscape c mode
                         then [CHR ''%'', upperhex (of_char c div 16), upperhex (of_char c mod 16)]
                       else [c]) s)"

definition validEncoded :: "string \<Rightarrow> encoding \<Rightarrow> bool" where
  "validEncoded s mode =
     list_all (\<lambda>c. c \<in> set (''!$&'' @ [CHR 0x27] @ ''()*+,;=:@[]%'') \<or> \<not> shouldEscape c mode) s"

definition stringContainsCTLByte :: "string \<Rightarrow> bool" where
  "stringContainsCTLByte s = list_ex (\<lambda>b. (of_char b :: nat) < 32 \<or> of_char b = (127 :: nat)) s"

text \<open>\<open>getScheme\<close>: \<open>pre\<close> holds the bytes read so far.\<close>

fun getSchemeScan :: "string \<Rightarrow> string \<Rightarrow> string \<Rightarrow> url_error + (string \<times> string)" where
  "getSchemeScan rawURL pre [] = Inr ([], rawURL)"
| "getSchemeScan rawURL pre (c # cs) =
     (if isAlpha c then getSchemeScan rawURL (pre @ [c]) cs
      else if isDigit c \<or> c = CHR ''+'' \<or> c = CHR ''-'' \<or> c = CHR ''.'' then
        (if pre = [] then Inr ([], rawURL) else getSchemeScan rawURL (pre @ [c]) cs)
      else if c = CHR '':'' then
        (if pre = [] then Inl MissingProtocolScheme else Inr (pre, cs))
      else Inr ([], rawURL))"

definition getScheme :: "string \<Rightarrow> url_error + (string \<times> string)" where
  "getScheme rawURL = getSchemeScan rawURL [] rawURL"

text \<open>\<open>strings.ToLower\<close> on a scheme, which holds ASCII letters, digits and \<open>+-.\<close> only.\<close>

definition ToLowerASCII :: "string \<Rightarrow> string" where
  "ToLowerASCII s =
     map (\<lambda>c. if 65 \<le> (of_char c :: nat) \<and> (of_char c :: nat) \<le> 90
               then char_of ((of_char c :: nat) + 32) else c) s"

text \<open>\<open>strings.Cut(s, sep)\<close> for a separator of one byte: the text before and after it.\<close>

definition Cut :: "string \<Rightarrow> char \<Rightarrow> string \<times> string" where
  "Cut s sep = (takeWhile (\<lambda>x. x \<noteq> sep) s, drop 1 (dropWhile (\<lambda>x. x \<noteq> sep) s))"

definition validOptionalPort :: "string \<Rightarrow> bool" where
  "validOptionalPort port = (port = [] \<or> hd port = CHR '':'' \<and> list_all isDigit (tl port))"

definition validUserinfo :: "string \<Rightarrow> bool" where
  "validUserinfo s =
     list_all (\<lambda>r. isAlpha r \<or> isDigit r \<or> r \<in> set (''-._:~!$&'' @ [CHR 0x27] @ ''()*+,;=%@'')) s"

text \<open>The index of the last occurrence of a byte, as \<open>strings.LastIndex\<close> gives it.\<close>

definition LastIndex :: "string \<Rightarrow> char \<Rightarrow> nat option" where
  "LastIndex s c =
     (if c \<in> set s then Some (length s - 1 - length (takeWhile (\<lambda>x. x \<noteq> c) (rev s))) else None)"

text \<open>The index of the first occurrence of \<open>%25\<close>, as \<open>strings.Index\<close> gives it.\<close>

fun IndexPct25 :: "string \<Rightarrow> nat option" where
  "IndexPct25 [] = None"
| "IndexPct25 (c # cs) =
     (if HasPrefix (c # cs) ''%25'' then Some 0 else map_option Suc (IndexPct25 cs))"

definition parseHost :: "string \<Rightarrow> url_error + string" where
  "parseHost host =
     (if HasPrefix host ''['' then
        (case LastIndex host CHR '']'' of
           None \<Rightarrow> Inl MissingBracket
         | Some i \<Rightarrow>
             if \<not> validOptionalPort (drop (i + 1) host) then Inl (InvalidPort (drop (i + 1) host))
             else
               (case IndexPct25 (take i host) of
                  Some zone \<Rightarrow>
                    (case unescape (take zone host) encodeHost of
                       Inl e \<Rightarrow> Inl e
                     | Inr host1 \<Rightarrow>
                         (case unescape (drop zone (take i host)) encodeZone of
                            Inl e \<Rightarrow> Inl e
                          | Inr host2 \<Rightarrow>
                              (case unescape (drop i host) encodeHost of
                                 Inl e \<Rightarrow> Inl e
                               | Inr host3 \<Rightarrow> Inr (host1 @ host2 @ host3))))
                | None \<Rightarrow> unescape host encodeHost))
      else
        (case LastIndex host CHR '':'' of
           Some i \<Rightarrow>
             if \<not> validOptionalPort (drop i host) then Inl (InvalidPort (drop i host))
             else unescape host encodeHost
         | None \<Rightarrow> unescape host encodeHost))"

definition parseAuthority :: "string \<Rightarrow> url_error + ((string \<times> string option) option \<times> string)" where
  "parseAuthority authority =
     (case LastIndex authority CHR ''@'' of
        None \<Rightarrow> (case parseHost authority of Inl e \<Rightarrow> Inl e | Inr host \<Rightarrow> Inr (None, host))
      | Some i \<Rightarrow>
          (case parseHost (drop (i + 1) authority) of
             Inl e \<Rightarrow> Inl e
           | Inr host \<Rightarrow>
               let userinfo = take i authority in
               if \<not> validUserinfo userinfo then Inl InvalidUserinfo
               else if CHR '':'' \<notin> set userinfo then
                 (case unescape userinfo encodeUserPassword of
                    Inl e \<Rightarrow> Inl e
                  | Inr username \<Rightarrow> Inr (Some (username, None), host))
               else
                 (case unescape (fst (Cut userinfo CHR '':'')) encodeUserPassword of
                    Inl e \<Rightarrow> Inl e
                  | Inr username \<Rightarrow>
                      (case unescape (snd (Cut userinfo CHR '':'')) encodeUserPassword of
                         Inl e \<Rightarrow> Inl e
                       | Inr password \<Rightarrow> Inr (Some (username, Some password), host)))))"

definition setPath :: "URL \<Rightarrow> string \<Rightarrow> url_error + URL" where
  "setPath u p =
     (case unescape p encodePath of
        Inl e \<Rightarrow> Inl e
      | Inr path \<Rightarrow>
          Inr (u\<lparr>Path := path, RawPath := (if p = escape path encodePath then [] else p)\<rparr>))"

definition setFragment :: "URL \<Rightarrow> string \<Rightarrow> url_error + URL" where
  "setFragment u f =
     (case unescape f encodeFragment of
        Inl e \<Rightarrow> Inl e
      | Inr frag \<Rightarrow>
          Inr (u\<lparr>Fragment := frag,
                 RawFragment := (if escape frag encodeFragment = f then [] else f)\<rparr>))"

text \<open>The unexported \<open>parse(rawURL, viaRequest)\<close> with \<open>viaRequest = false\<close>.\<close>

definition parse :: "string \<Rightarrow> url_error + URL" where
  "parse rawURL =
     (if stringContainsCTLByte rawURL then Inl InvalidControlCharacter
      else if rawURL = ''*'' then Inr (emptyURL\<lparr>Path := ''*''\<rparr>)
      else
        case getScheme rawURL of
          Inl e \<Rightarrow> Inl e
        | Inr (scheme, rest0) \<Rightarrow>
            let url0 = emptyURL\<lparr>Scheme := ToLowerASCII scheme\<rparr>;
                force = (HasSuffix rest0 ''?'' \<and> length (filter (\<lambda>x. x = CHR ''?'') rest0) = 1);
                rest = (if force then butlast rest0 else fst (Cut rest0 CHR ''?''));
                url1 = (if force then url0\<lparr>ForceQuery := True\<rparr>
                        else url0\<lparr>RawQuery := snd (Cut rest0 CHR ''?'')\<rparr>)
            in
            if \<not> HasPrefix rest ''/'' \<and> Scheme url1 \<noteq> [] then Inr (url1\<lparr>Opaque := rest\<rparr>)
            else if \<not> HasPrefix rest ''/'' \<and> CHR '':'' \<in> set (fst (Cut rest CHR ''/''))
              then Inl ColonInFirstPathSegment
            else if (Scheme url1 \<noteq> [] \<or> \<not> HasPrefix rest ''///'') \<and> HasPrefix rest ''//'' then
              (let authority = takeWhile (\<lambda>x. x \<noteq> CHR ''/'') (drop 2 rest);
                   rest' = dropWhile (\<lambda>x. x \<noteq> CHR ''/'') (drop 2 rest)
               in case parseAuthority authority of
                    Inl e \<Rightarrow> Inl e
                  | Inr (user, host) \<Rightarrow> setPath (url1\<lparr>User := user, Host := host\<rparr>) rest')
            else if Scheme url1 \<noteq> [] \<and> HasPrefix rest ''/'' then
              setPath (url1\<lparr>OmitHost := True\<rparr>) rest
            else setPath url1 rest)"

definition url_Parse :: "string \<Rightarrow> url_error + URL" where
  "url_Parse rawURL =
     (case parse (fst (Cut rawURL CHR ''#'')) of
        Inl e \<Rightarrow> Inl e
      | Inr url \<Rightarrow>
          if snd (Cut rawURL CHR ''#'') = [] then Inr url
          else setFragment url (snd (Cut rawURL CHR ''#'')))"

definition EscapedPath :: "URL \<Rightarrow> string" where
  "EscapedPath u =
     (if RawPath u \<noteq> [] \<and> validEncoded (RawPath u) encodePath
         \<and> unescape (RawPath u) encodePath = Inr (Path u) then RawPath u
      else if Path u = ''*'' then ''*''
      else escape (Path u) encodePath)"

definition EscapedFragment :: "URL \<Rightarrow> string" where
  "EscapedFragment u =
     (if RawFragment u \<noteq> [] \<and> validEncoded (RawFragment u) encodeFragment
         \<and> unescape (RawFragment u) encodeFragment = Inr (Fragment u) then RawFragment u
      else escape (Fragment u) encodeFragment)"

definition Userinfo_String :: "string \<times> string option \<Rightarrow> string" where
  "Userinfo_String ui =
     escape (fst ui) encodeUserPassword @
     (case snd ui of None \<Rightarrow> [] | Some password \<Rightarrow> '':'' @ escape password encodeUserPassword)"

definition URL_String :: "URL \<Rightarrow> string" where
  "URL_String u =
     (let buf1 = (if Scheme u \<noteq> [] then Scheme u @ '':'' else []);
          buf2 =
            (if Opaque u \<noteq> [] then buf1 @ Opaque u
             else
               let buf3 =
                     (if (Scheme u \<noteq> [] \<or> Host u \<noteq> [] \<or> User u \<noteq> None)
                         \<and> \<not> (OmitHost u \<and> Host u = [] \<and> User u = None)
                      then buf1
                        @ (if Host u \<noteq> [] \<or> Path u \<noteq> [] \<or> User u \<noteq> None then ''//'' else [])
                        @ (case User u of None \<Rightarrow> [] | Some ui \<Rightarrow> Userinfo_String ui @ ''@'')
                        @ (if Host u \<noteq> [] then escape (Host u) encodeHost else [])
                      else buf1);
                   path = EscapedPath u;
                   buf4 = (if path \<noteq> [] \<and> hd path \<noteq> CHR ''/'' \<and> Host u \<noteq> [] then buf3 @ ''/''
                           else buf3);
                   buf5 = (if buf4 = [] \<and> CHR '':'' \<in> set (fst (Cut path CHR ''/''))
                           then buf4 @ ''./'' else buf4)
               in buf5 @ path);
          buf6 = (if ForceQuery u \<or> RawQuery u \<noteq> [] then buf2 @ ''?'' @ RawQuery u else buf2)
      in if Fragment u \<noteq> [] then buf6 @ ''#'' @ EscapedFragment u else buf6)"

section \<open>Media locator\<close>

text \<open>The loop body of \<open>pickBestSrc\<close>, on the pair \<open>(best, maxW)\<close>.\<close>

definition pickStep :: "string \<times> int \<Rightarrow> string \<times> string \<Rightarrow> string \<times> int" where
  "pickStep st m = (let w = Sscanf_d (snd m) in if w > snd st then (fst m, w) else st)"

definition pickBestSrc :: "string \<Rightarrow> string \<Rightarrow> string" where
  "pickBestSrc src srcset =
     fst (foldl pickStep (TrimSpace src, - 1) (srcsetFindAll (TrimSpace srcset)))"

definition stripWPSuffixes :: "string \<Rightarrow> string" where
  "stripWPSuffixes name = cutSuffix scaledSuffixMatch (cutSuffix sizeSuffixMatch name)"

text \<open>
  A \<open>srcset\<close> value written as a list of entries \<open><url> <width>w\<close>. An entry is given by
  what separates it from the entry before it, its URL, the white space between the URL
  and the width, and the digits of the width; the list may end in further separators.
\<close>

type_synonym srcsetEntry = "string \<times> string \<times> string \<times> string"

definition entryURL :: "srcsetEntry \<Rightarrow> string" where
  "entryURL e = fst (snd e)"

definition entryDigits :: "srcsetEntry \<Rightarrow> string" where
  "entryDigits e = snd (snd (snd e))"

definition entryText :: "srcsetEntry \<Rightarrow> string" where
  "entryText e = (case e of (sep, u, gap, ds) \<Rightarrow> sep @ u @ gap @ ds @ ''w'')"

definition srcsetText :: "srcsetEntry list \<Rightarrow> string \<Rightarrow> string" where
  "srcsetText es end = concat (map entryText es) @ end"

text \<open>
  Entries are separated by commas and the characters \<open>\<^verbatim>\<open>\s\<close>\<close>, in any number. The URL of an
  entry is not empty and has neither a comma nor one of the characters \<open>\<^verbatim>\<open>\s\<close>\<close>; the URL
  and the width are separated by at least one of the characters \<open>\<^verbatim>\<open>\s\<close>\<close>; the width is a
  non-empty string of digits.
\<close>

definition sepChar :: "char \<Rightarrow> bool" where
  "sepChar c = (reSpace c \<or> c = CHR '','')"

definition wellFormedEntry :: "srcsetEntry \<Rightarrow> bool" where
  "wellFormedEntry e =
     (case e of (sep, u, gap, ds) \<Rightarrow>
        list_all sepChar sep \<and> u \<noteq> [] \<and> list_all urlChar u \<and>
        gap \<noteq> [] \<and> list_all reSpace gap \<and> ds \<noteq> [] \<and> list_all isDigit ds)"

definition toOriginalURL :: "string \<Rightarrow> string" where
  "toOriginalURL raw =
     (case url_Parse raw of
        Inl err \<Rightarrow> raw
      | Inr u \<Rightarrow>
          let base = path_Base (Path u);
              dir = path_Dir (Path u);
              ext = path_Ext base;
              name = TrimSuffix base ext;
              name' = stripWPSuffixes name
          in URL_String (u\<lparr>Path := path_Join [dir, name' @ ext]\<rparr>))"

definition filenameFromURL :: "string \<Rightarrow> string" where
  "filenameFromURL raw =
     (case url_Parse raw of
        Inl err \<Rightarrow> path_Base raw
      | Inr u \<Rightarrow>
          let name = path_Base (Path u)
          in if name = [] \<or> name = ''/'' then ''image'' else name)"

text \<open>
  The destination of a media file and the path written into the document, as
  \<open>rewriteAndDownloadImages\<close> computes them for the media area \<open>area\<close> (\<open>images\<close>,
  \<open>galleries\<close> or \<open>videos\<close>): \<open>dest = filepath.Join(filepath.Join(*staticDir, area, slug),
  filename)\<close> and \<open>rel = path.Join(path.Join("/" + area, slug), filename)\<close>, where
  \<open>filename = filenameFromURL(url)\<close>.
\<close>

definition mediaDest :: "string \<Rightarrow> string \<Rightarrow> string \<Rightarrow> string \<Rightarrow> string" where
  "mediaDest staticDir area slug url =
     path_Join [path_Join [staticDir, area, slug], filenameFromURL url]"

definition mediaRel :: "string \<Rightarrow> string \<Rightarrow> string \<Rightarrow> string" where
  "mediaRel area slug url = path_Join [path_Join [''/'' @ area, slug], filenameFromURL url]"

subsection \<open>Notions used to state what canonicalization achieves\<close>







section \<open>Documents\<close>

text \<open>
  The tree \<open>goquery.NewDocumentFromReader\<close> builds with the HTML parser of
  \<open>golang.org/x/net/html\<close>: text nodes and element nodes. An element has a tag name, the
  slice of its attributes (key and value) and its children; the number it carries stands
  for the identity of the node object, which the program never reads. A document is the
  list of the children of its document node. Parsing and rendering are the library's
  and are not modelled: the functions below start from the parsed tree, and the parser of
  HTML fragments that \<open>ReplaceWithHtml\<close> calls is a parameter. An \<open>img\<close> element has no
  children in a parsed document; the walks below do not look for any.
\<close>

type_synonym attrs = "(string \<times> string) list"

datatype node = TextNode string | Element nat string attrs "node list"

subsection \<open>Attributes (\<open>goquery\<close>)\<close>

text \<open>\<open>Attr\<close> returns the value of the first attribute with the key, and whether there is one.\<close>

definition Attr :: "string \<Rightarrow> attrs \<Rightarrow> string option" where
  "Attr name as = map_of as name"

text \<open>\<open>v, _ := s.Attr(name)\<close>: the empty string when the attribute is missing.\<close>

definition AttrOr :: "string \<Rightarrow> attrs \<Rightarrow> string" where
  "AttrOr name as = (case Attr name as of None \<Rightarrow> [] | Some v \<Rightarrow> v)"

text \<open>
  \<open>RemoveAttr\<close> removes the first attribute with the key: the last attribute of the slice
  takes its place and the slice is cut by one.
\<close>

fun RemoveAttr :: "string \<Rightarrow> attrs \<Rightarrow> attrs" where
  "RemoveAttr name [] = []"
| "RemoveAttr name (a # as) =
     (if fst a = name then (if as = [] then [] else last as # butlast as)
      else a # RemoveAttr name as)"

text \<open>\<open>SetAttr\<close> overwrites the first attribute with the key, or appends a new one.\<close>

fun SetAttr :: "string \<Rightarrow> string \<Rightarrow> attrs \<Rightarrow> attrs" where
  "SetAttr name val [] = [(name, val)]"
| "SetAttr name val (a # as) =
     (if fst a = name then (name, val) # as else a # SetAttr name val as)"

subsection \<open>Selectors (\<open>cascadia\<close>)\<close>

definition classSep :: "char \<Rightarrow> bool" where
  "classSep c = (c = CHR 0x20 \<or> c = CHR 0x09 \<or> c = CHR 0x0D \<or> c = CHR 0x0A \<or> c = CHR 0x0C)"

text \<open>
  Whether \<open>val\<close> is one of the white-space separated words of \<open>s\<close>: the test behind a
  class selector \<open>.val\<close>.
\<close>

function matchInclude :: "string \<Rightarrow> string \<Rightarrow> bool" where
  "matchInclude val s =
     (if s = [] then False
      else if dropWhile (\<lambda>c. \<not> classSep c) s = [] then s = val
      else takeWhile (\<lambda>c. \<not> classSep c) s = val
           \<or> matchInclude val (tl (dropWhile (\<lambda>c. \<not> classSep c) s)))"
  by pat_completeness auto
termination
proof (relation "measure (\<lambda>(val, s). length s)")
  show "wf (measure (\<lambda>(val, s). length s))" by simp
next
  fix val s :: string
  assume "s \<noteq> []" and d: "dropWhile (\<lambda>c. \<not> classSep c) s \<noteq> []"
  have "length (dropWhile (\<lambda>c. \<not> classSep c) s) \<le> length s" by (rule length_dropWhile_le)
  moreover have "length (tl (dropWhile (\<lambda>c. \<not> classSep c) s)) < length (dropWhile (\<lambda>c. \<not> classSep c) s)"
    using d by (cases "dropWhile (\<lambda>c. \<not> classSep c) s") simp_all
  ultimately show "((val, tl (dropWhile (\<lambda>c. \<not> classSep c) s)), (val, s)) \<in> measure (\<lambda>(val, s). length s)"
    by simp
qed

declare matchInclude.simps [simp del]

text \<open>The class selector: some \<open>class\<close> attribute of the element has the word.\<close>

definition hasClass :: "string \<Rightarrow> attrs \<Rightarrow> bool" where
  "hasClass cls as = list_ex (\<lambda>a. fst a = ''class'' \<and> matchInclude cls (snd a)) as"

subsection \<open>Traversal (\<open>goquery\<close>)\<close>

fun children :: "node \<Rightarrow> node list" where
  "children (TextNode t) = []"
| "children (Element i tag as cs) = cs"

text \<open>A node with its descendants, in document order.\<close>

fun subtree :: "node \<Rightarrow> node list" where
  "subtree (TextNode t) = [TextNode t]"
| "subtree (Element i tag as cs) = Element i tag as cs # concat (map subtree cs)"

definition isElement :: "string \<Rightarrow> node \<Rightarrow> bool" where
  "isElement tag n = (case n of TextNode t \<Rightarrow> False | Element i tag' as cs \<Rightarrow> tag' = tag)"

definition attrsOf :: "node \<Rightarrow> attrs" where
  "attrsOf n = (case n of TextNode t \<Rightarrow> [] | Element i tag as cs \<Rightarrow> as)"

text \<open>\<open>Find(tag)\<close> on a list of nodes: the elements with the tag among their descendants.\<close>

definition Find :: "string \<Rightarrow> node list \<Rightarrow> node list" where
  "Find tag ns = filter (isElement tag) (concat (map subtree ns))"

text \<open>\<open>Text()\<close>: the data of the text nodes of the subtree, concatenated.\<close>

fun nodeText :: "node \<Rightarrow> string" where
  "nodeText (TextNode t) = t"
| "nodeText (Element i tag as cs) = concat (map nodeText cs)"

text \<open>
  The nodes both functions of the program work on after their passes: the contents of
  the \<open>body\<close> elements when there is one, the top-level nodes otherwise.
\<close>

definition contentRoots :: "node list \<Rightarrow> node list" where
  "contentRoots doc =
     (if Find ''body'' doc \<noteq> [] then concat (map children (Find ''body'' doc)) else doc)"

section \<open>Document rewriter (\<open>rewriteAndDownloadImages\<close>)\<close>

text \<open>
  What the rewriter is given besides the document: the flag \<open>*staticDir\<close>, the slug, and
  the fragment parser behind \<open>ReplaceWithHtml\<close>, which gets the tag of the parent element
  as its context.
\<close>

record rewriter =
  staticDir :: string
  slug :: string
  parseFragment :: "string \<Rightarrow> string \<Rightarrow> node list"

text \<open>
  The callback of \<open>doc.Find("img").Each\<close> on one \<open>img\<close> element with attributes \<open>as\<close>, whose
  parent has the tag \<open>ptag\<close> and which has an ancestor of class \<open>wp-block-gallery\<close> exactly
  when \<open>inGallery\<close> holds. It returns the nodes that stand in place of the element, the
  local path when the element was relocated, and the downloader.
\<close>

definition isEmoji :: "attrs \<Rightarrow> bool" where
  "isEmoji as =
     (Contains (AttrOr ''class'' as) ''wp-smiley''
      \<or> Contains (AttrOr ''src'' as) ''/s.w.org/images/core/emoji/'')"

definition mediaArea :: "bool \<Rightarrow> string" where
  "mediaArea inGallery = (if inGallery then ''galleries'' else ''images'')"

definition onImg ::
  "rewriter \<Rightarrow> bool \<Rightarrow> string \<Rightarrow> nat \<Rightarrow> attrs \<Rightarrow> node list \<Rightarrow> downloader
    \<Rightarrow> node list \<times> string option \<times> downloader" where
  "onImg c inGallery ptag i as cs dl =
     (if isEmoji as then
        (case Attr ''alt'' as of
           Some alt \<Rightarrow>
             if TrimSpace alt \<noteq> [] then (parseFragment c ptag alt, None, dl)
             else (parseFragment c ptag [], None, dl)
         | None \<Rightarrow> (parseFragment c ptag [], None, dl))
      else
        let best = pickBestSrc (AttrOr ''src'' as) (AttrOr ''srcset'' as) in
        if best = [] then ([Element i ''img'' as cs], None, dl)
        else
          let origURL = toOriginalURL best;
              dest = mediaDest (staticDir c) (mediaArea inGallery) (slug c) origURL;
              rel = mediaRel (mediaArea inGallery) (slug c) origURL
          in ([Element i ''img''
                 (SetAttr ''src'' rel (RemoveAttr ''sizes'' (RemoveAttr ''srcset'' as))) cs],
              Some rel, Schedule dl origURL dest))"

text \<open>
  The first pass. The selection \<open>doc.Find("img")\<close> lists the \<open>img\<close> elements in document
  order, and the callback changes the element itself and the \<open>href\<close> of its closest
  enclosing \<open>a\<close> element only. The walk visits the elements in the same order; it hands
  the local path of the last relocated image upwards until an \<open>a\<close> element takes it, which
  is the value the successive \<open>SetAttr("href", rel)\<close> calls of the callback leave there.
\<close>

fun imgNode ::
  "rewriter \<Rightarrow> bool \<Rightarrow> string \<Rightarrow> node \<Rightarrow> downloader \<Rightarrow> node list \<times> string option \<times> downloader"
and imgNodes ::
  "rewriter \<Rightarrow> bool \<Rightarrow> string \<Rightarrow> node list \<Rightarrow> downloader \<Rightarrow> node list \<times> string option \<times> downloader"
where
  "imgNode c g ptag (TextNode t) dl = ([TextNode t], None, dl)"
| "imgNode c g ptag (Element i tag as cs) dl =
     (if tag = ''img'' then onImg c g ptag i as cs dl
      else
        case imgNodes c (g \<or> hasClass ''wp-block-gallery'' as) tag cs dl of
          (cs', r, dl') \<Rightarrow>
            if tag = ''a''
            then ([Element i tag (case r of None \<Rightarrow> as | Some rel \<Rightarrow> SetAttr ''href'' rel as) cs'],
                  None, dl')
            else ([Element i tag as cs'], r, dl'))"
| "imgNodes c g ptag [] dl = ([], None, dl)"
| "imgNodes c g ptag (n # ns) dl =
     (case imgNode c g ptag n dl of
        (ns1, r1, dl1) \<Rightarrow>
          (case imgNodes c g ptag ns dl1 of
             (ns2, r2, dl2) \<Rightarrow> (ns1 @ ns2, (case r2 of None \<Rightarrow> r1 | Some rel \<Rightarrow> Some rel), dl2)))"

text \<open>\<open>v.Find("source").Each\<close>: every \<open>source\<close> element below the video gets the path.\<close>

fun setSourceSrc :: "string \<Rightarrow> node \<Rightarrow> node" where
  "setSourceSrc rel (TextNode t) = TextNode t"
| "setSourceSrc rel (Element i tag as cs) =
     Element i tag (if tag = ''source'' then SetAttr ''src'' rel as else as)
       (map (setSourceSrc rel) cs)"

text \<open>
  The source URL of a video: its own \<open>src\<close>, or when that is blank the \<open>src\<close> of the first
  \<open>source\<close> element below it.
\<close>

definition videoSrc :: "attrs \<Rightarrow> node list \<Rightarrow> string" where
  "videoSrc as cs =
     (if TrimSpace (AttrOr ''src'' as) = [] then
        (case Find ''source'' cs of [] \<Rightarrow> AttrOr ''src'' as | s # _ \<Rightarrow> AttrOr ''src'' (attrsOf s))
      else AttrOr ''src'' as)"

text \<open>
  The second pass, \<open>doc.Find("video").Each\<close>: a video changes itself and the \<open>source\<close>
  elements below it, so the walk treats a video before the videos inside it.
\<close>

fun nodeCount :: "node \<Rightarrow> nat" where
  "nodeCount (TextNode t) = 1"
| "nodeCount (Element i tag as cs) = Suc (sum_list (map nodeCount cs))"

lemma nodeCount_setSourceSrc: "nodeCount (setSourceSrc rel n) = nodeCount n"
proof (induction n)
  case (TextNode t)
  show ?case by simp
next
  case (Element i tag as cs)
  have "sum_list (map (\<lambda>x. nodeCount (setSourceSrc rel x)) cs) = sum_list (map nodeCount cs)"
    using Element.IH by (induction cs) auto
  then show ?case by (simp add: comp_def)
qed

lemma nodeCount_pos: "0 < nodeCount n"
  by (cases n) simp_all

lemma nodeCount_map_setSourceSrc:
  "sum_list (map nodeCount (map (setSourceSrc rel) cs)) = sum_list (map nodeCount cs)"
  by (induction cs) (simp_all add: nodeCount_setSourceSrc)

function videoNode :: "rewriter \<Rightarrow> node \<Rightarrow> downloader \<Rightarrow> node \<times> downloader"
and videoNodes :: "rewriter \<Rightarrow> node list \<Rightarrow> downloader \<Rightarrow> node list \<times> downloader"
where
  "videoNode c (TextNode t) dl = (TextNode t, dl)"
| "videoNode c (Element i tag as cs) dl =
     (if tag = ''video'' \<and> TrimSpace (videoSrc as cs) \<noteq> [] then
        (case videoNodes c (map (setSourceSrc (mediaRel ''videos'' (slug c) (videoSrc as cs))) cs)
                (Schedule dl (videoSrc as cs)
                   (mediaDest (staticDir c) ''videos'' (slug c) (videoSrc as cs))) of
           (cs', dl') \<Rightarrow>
             (Element i tag (SetAttr ''src'' (mediaRel ''videos'' (slug c) (videoSrc as cs)) as) cs',
              dl'))
      else
        (case videoNodes c cs dl of (cs', dl') \<Rightarrow> (Element i tag as cs', dl')))"
| "videoNodes c [] dl = ([], dl)"
| "videoNodes c (n # ns) dl =
     (case videoNode c n dl of
        (n', dl1) \<Rightarrow> (case videoNodes c ns dl1 of (ns', dl2) \<Rightarrow> (n' # ns', dl2)))"
  by pat_completeness auto
termination
  by (relation "measure (\<lambda>x. case x of
          Inl (c, n, dl) \<Rightarrow> 2 * nodeCount n
        | Inr (c, ns, dl) \<Rightarrow> 2 * sum_list (map nodeCount ns) + 1)")
     (auto simp: nodeCount_map_setSourceSrc nodeCount_pos simp del: map_map)

text \<open>The two passes over the document, which the program changes in place.\<close>

definition rewriteDocument :: "rewriter \<Rightarrow> node list \<Rightarrow> downloader \<Rightarrow> node list \<times> downloader" where
  "rewriteDocument c doc dl =
     (case imgNodes c False [] doc dl of (doc1, r, dl1) \<Rightarrow> videoNodes c doc1 dl1)"

text \<open>
  The function returns the rendering of \<open>contentRoots\<close> of the rewritten document, joined
  and trimmed; the model returns these nodes and the downloader.
\<close>

definition rewriteAndDownloadImages ::
  "rewriter \<Rightarrow> node list \<Rightarrow> downloader \<Rightarrow> node list \<times> downloader" where
  "rewriteAndDownloadImages c doc dl =
     (case rewriteDocument c doc dl of (doc2, dl2) \<Rightarrow> (contentRoots doc2, dl2))"

subsection \<open>Notions used to state what the rewriter achieves\<close>

text \<open>All nodes of a document, in document order.\<close>

definition allNodes :: "node list \<Rightarrow> node list" where
  "allNodes ns = concat (map subtree ns)"











section \<open>Content transformer (\<open>toMarkdownPreserveOrder\<close>)\<close>

subsection \<open>The converter\<close>

text \<open>
  The three rules the program adds to the converter. A rule gets the Markdown of the
  element's children and the element; \<open>None\<close> is the \<open>nil\<close> a rule returns to write nothing.
\<close>

definition ruleP :: "string \<Rightarrow> attrs \<Rightarrow> string option" where
  "ruleP content as =
     (if TrimSpace content = [] then None else Some (TrimSpace content @ [CHR 0x0A, CHR 0x0A]))"

definition ruleBr :: "string \<Rightarrow> attrs \<Rightarrow> string option" where
  "ruleBr content as = Some [CHR 0x0A]"

text \<open>\<open>fmt.Sprintf("![%s](%s)\n\n", alt, src)\<close>.\<close>

definition imageRef :: "string \<Rightarrow> string \<Rightarrow> string" where
  "imageRef alt src = ''!['' @ alt @ '']('' @ src @ '')'' @ [CHR 0x0A, CHR 0x0A]"

text \<open>The alternative text used for an image: its trimmed \<open>alt\<close>, or the base name of \<open>src\<close>.\<close>

definition altOf :: "attrs \<Rightarrow> string" where
  "altOf as =
     (if TrimSpace (AttrOr ''alt'' as) = [] then path_Base (AttrOr ''src'' as)
      else TrimSpace (AttrOr ''alt'' as))"

definition ruleImg :: "string \<Rightarrow> attrs \<Rightarrow> string option" where
  "ruleImg content as =
     (if AttrOr ''src'' as = [] then None else Some (imageRef (altOf as) (AttrOr ''src'' as)))"

text \<open>
  The converter is \<open>md.NewConverter("", false, nil)\<close> of
  \<open>github.com/JohannesKaufmann/html-to-markdown\<close> (version 1) with these three rules. Since
  the CommonMark rules are switched off, every other node, text nodes included, falls
  under the library's default rule, which writes the Markdown of the node's children.
  \<open>selecToMD\<close> is the library's walk; a rule that returns \<open>nil\<close> writes nothing, as no
  earlier rule for the tag is left to try.
\<close>

fun selecToMD :: "node \<Rightarrow> string" where
  "selecToMD (TextNode t) = []"
| "selecToMD (Element i tag as cs) =
     (if tag = ''p'' then (case ruleP (concat (map selecToMD cs)) as of None \<Rightarrow> [] | Some s \<Rightarrow> s)
      else if tag = ''br'' then (case ruleBr (concat (map selecToMD cs)) as of None \<Rightarrow> [] | Some s \<Rightarrow> s)
      else if tag = ''img'' then (case ruleImg (concat (map selecToMD cs)) as of None \<Rightarrow> [] | Some s \<Rightarrow> s)
      else concat (map selecToMD cs))"

text \<open>
  The library's closing step: \<open>strings.TrimSpace\<close>, runs of two or more newlines replaced
  by two, and white space removed from the end of every line.
\<close>

fun collapseNewlines :: "nat \<Rightarrow> string \<Rightarrow> string" where
  "collapseNewlines k [] = []"
| "collapseNewlines k (c # cs) =
     (if c = CHR 0x0A then (if k \<ge> 2 then collapseNewlines k cs else c # collapseNewlines (Suc k) cs)
      else c # collapseNewlines 0 cs)"

definition TrimRightSpace :: "string \<Rightarrow> string" where
  "TrimRightSpace s = rev (stripLeft (map rev spaceRunes) (rev s))"

fun splitLines :: "string \<Rightarrow> string \<Rightarrow> string list" where
  "splitLines cur [] = [cur]"
| "splitLines cur (c # cs) =
     (if c = CHR 0x0A then cur # splitLines [] cs else splitLines (cur @ [c]) cs)"

fun joinLines :: "string list \<Rightarrow> string" where
  "joinLines [] = []"
| "joinLines [l] = l"
| "joinLines (l # ls) = l @ [CHR 0x0A] @ joinLines ls"

definition TrimTrailingSpaces :: "string \<Rightarrow> string" where
  "TrimTrailingSpaces text = joinLines (map TrimRightSpace (splitLines [] text))"

text \<open>
  \<open>conv.ConvertString(h)\<close> on the rendering \<open>h\<close> of one node; parsing \<open>h\<close> again is taken to
  give the node back.
\<close>

definition ConvertString :: "node \<Rightarrow> string" where
  "ConvertString n = TrimTrailingSpaces (collapseNewlines 0 (TrimSpace (selecToMD n)))"

subsection \<open>The walk over the top-level nodes\<close>

text \<open>What the callback of \<open>roots.Each\<close> appends to the builder for one node.\<close>

definition emitGallery :: "node list \<Rightarrow> string" where
  "emitGallery cs =
     concat (map (\<lambda>img. if AttrOr ''src'' (attrsOf img) \<noteq> []
                         then imageRef (altOf (attrsOf img)) (AttrOr ''src'' (attrsOf img))
                         else [])
               (Find ''img'' cs))"

definition emitVideo :: "nat \<Rightarrow> string \<Rightarrow> attrs \<Rightarrow> node list \<Rightarrow> string" where
  "emitVideo i tag as cs =
     (case (if tag = ''video'' then [Element i tag as cs] else take 1 (Find ''video'' cs)) of
        [] \<Rightarrow> []
      | vs # _ \<Rightarrow>
          let src = videoSrc (attrsOf vs) (children vs) in
          if TrimSpace src \<noteq> []
          then ''[Video: '' @ path_Base src @ '']('' @ src @ '')'' @ [CHR 0x0A, CHR 0x0A]
          else [])"

definition emitGeneric :: "node \<Rightarrow> string" where
  "emitGeneric n =
     (let frag = ConvertString n in
      if TrimSpace frag = [] then
        (if TrimSpace (nodeText n) \<noteq> [] then TrimSpace (nodeText n) @ [CHR 0x0A, CHR 0x0A] else [])
      else frag @ (if HasSuffix frag [CHR 0x0A] then [] else [CHR 0x0A]))"

fun emitNode :: "node \<Rightarrow> string" where
  "emitNode (TextNode t) =
     (if TrimSpace t = [] then [] else TrimSpace t @ [CHR 0x0A, CHR 0x0A])"
| "emitNode (Element i tag as cs) =
     (if hasClass ''wp-block-gallery'' as then emitGallery cs
      else if hasClass ''wp-block-video'' as \<or> tag = ''video'' then emitVideo i tag as cs
      else emitGeneric (Element i tag as cs))"

definition toMarkdownPreserveOrder :: "node list \<Rightarrow> string" where
  "toMarkdownPreserveOrder doc = TrimSpace (foldl (\<lambda>b n. b @ emitNode n) [] (contentRoots doc))"

subsection \<open>Notions used to state what the transformer achieves\<close>

text \<open>
  A top-level node without media: no \<open>img\<close> element lies in it, and it is neither a gallery
  block, nor a video block, nor a \<open>video\<close> element.
\<close>

definition mediaFree :: "node \<Rightarrow> bool" where
  "mediaFree n =
     (list_all (\<lambda>m. \<not> isElement ''img'' m) (subtree n) \<and>
      (case n of
         TextNode t \<Rightarrow> True
       | Element i tag as cs \<Rightarrow>
           \<not> hasClass ''wp-block-gallery'' as \<and> \<not> hasClass ''wp-block-video'' as \<and> tag \<noteq> ''video''))"

text \<open>The text of a node as a paragraph: the trimmed text, or nothing when it is blank.\<close>

definition trimmedText :: "node \<Rightarrow> string" where
  "trimmedText n = TrimSpace (nodeText n)"

section \<open>Evaluation rules\<close>

text \<open>The defining equations by which the functions are evaluated on given inputs.\<close>

lemmas url_eval = url_Parse_def parse_def Cut_def stringContainsCTLByte_def getScheme_def
  isAlpha_def isDigit_def ToLowerASCII_def HasSuffix_def HasPrefix_def emptyURL_def
  parseAuthority_def parseHost_def LastIndex_def validOptionalPort_def unescape_def
  setPath_def escape_def shouldEscape_def Let_def

lemmas path_eval = path_Base_def stripTrailingSlashes_def afterLastSlash_def uptoLastSlash_def
  path_Dir_def path_Clean_def cleanLoop.simps path_Ext_def path_Join_def TrimSuffix_def

lemmas dom_eval = Find_def isElement_def attrsOf_def AttrOr_def Attr_def hasClass_def
  matchInclude.simps classSep_def

lemmas trim_eval = TrimSpace_def stripLeft.simps spaceRunes_def HasPrefix_def

lemmas strip_eval = stripWPSuffixes_def sizeSuffixMatch_def scaledSuffixMatch_def dashDigits_def
  HasPrefix_def isDigit_def Let_def


section \<open>Results on the download coordinator\<close>

subsection \<open>Scheduling\<close>

lemma Schedule_seen: "seen d = fst ` set (started d) \<Longrightarrow> seen (Schedule d u x) = fst ` set (started (Schedule d u x))"
  by (auto simp: Schedule_def)

lemma Schedule_distinct:
  "seen d = fst ` set (started d) \<Longrightarrow> distinct (map fst (started d)) \<Longrightarrow> distinct (map fst (started (Schedule d u x)))"
  by (auto simp: Schedule_def)

lemma Schedule_map_of:
  assumes "seen d = fst ` set (started d)"
  shows "map_of (started (Schedule d u x) @ cs) = map_of (started d @ (u, x) # cs)"
proof (cases "u \<in> seen d")
  case True
  then have "u \<in> dom (map_of (started d))"
    using assms by (simp add: dom_map_of_conv_image_fst)
  then obtain y where y: "map_of (started d) u = Some y" by blast
  have "map_of ((u, x) # cs) ++ map_of (started d) = map_of cs ++ map_of (started d)"
    using y by (auto simp: map_add_def fun_eq_iff split: option.splits)
  with True show ?thesis by (simp add: Schedule_def)
next
  case False
  then show ?thesis by (simp add: Schedule_def)
qed

lemma ScheduleAll_seen:
  "seen d = fst ` set (started d) \<Longrightarrow>
   seen (ScheduleAll d cs) = fst ` set (started (ScheduleAll d cs))"
  by (induction cs arbitrary: d) (simp_all add: Schedule_seen)

lemma ScheduleAll_keys: "seen (ScheduleAll d cs) = seen d \<union> fst ` set cs"
  by (induction cs arbitrary: d) (auto simp: Schedule_def)

lemma ScheduleAll_distinct:
  "seen d = fst ` set (started d) \<Longrightarrow> distinct (map fst (started d)) \<Longrightarrow>
   distinct (map fst (started (ScheduleAll d cs)))"
  by (induction cs arbitrary: d) (simp_all add: Schedule_seen Schedule_distinct)

lemma ScheduleAll_map_of:
  "seen d = fst ` set (started d) \<Longrightarrow>
   map_of (started (ScheduleAll d cs)) = map_of (started d @ cs)"
proof (induction cs arbitrary: d)
  case Nil
  then show ?case by simp
next
  case (Cons c cs)
  have "map_of (started (ScheduleAll (Schedule d (fst c) (snd c)) cs)) =
        map_of (started (Schedule d (fst c) (snd c)) @ cs)"
    by (rule Cons.IH) (rule Schedule_seen[OF Cons.prems])
  also have "\<dots> = map_of (started d @ (fst c, snd c) # cs)"
    by (rule Schedule_map_of[OF Cons.prems])
  finally show ?case by simp
qed

lemma one_task:
  "distinct (map fst xs) \<Longrightarrow> u \<in> fst ` set xs \<Longrightarrow> length (filter (\<lambda>t. fst t = u) xs) = 1"
proof (induction xs)
  case Nil
  then show ?case by simp
next
  case (Cons a xs)
  show ?case
  proof (cases "fst a = u")
    case True
    have "fst a \<notin> fst ` set xs" using Cons.prems(1) by simp
    then have "\<forall>t\<in>set xs. fst t \<noteq> u" unfolding True[symmetric] by (metis imageI)
    then have "filter (\<lambda>t. fst t = u) xs = []" by (simp add: filter_empty_conv)
    with True show ?thesis by simp
  next
    case False
    then show ?thesis using Cons by auto
  qed
qed

text \<open>
  C2. Whatever calls of \<open>Schedule\<close> a new downloader receives, the goroutines it starts have
  pairwise different source URLs, and the destination of the one started for a URL is the
  destination given in the first call for that URL. Once a URL has been scheduled, a
  further call of \<open>Schedule\<close> for it changes nothing, whatever destination it names, and
  exactly one goroutine (one call of \<open>downloadFile\<close>, writing one destination path) exists
  for it.
\<close>

theorem Schedule_idempotent:
  "distinct (map fst (started (ScheduleAll (newDownloader n) cs))) \<and>
   map_of (started (ScheduleAll (newDownloader n) cs)) = map_of cs \<and>
   (\<forall>u dest'. u \<in> fst ` set cs \<longrightarrow>
      Schedule (ScheduleAll (newDownloader n) cs) u dest' = ScheduleAll (newDownloader n) cs \<and>
      length (filter (\<lambda>t. fst t = u) (started (ScheduleAll (newDownloader n) cs))) = 1)"
proof -
  let ?d = "ScheduleAll (newDownloader n) cs"
  have e: "started (newDownloader n) = []" "seen (newDownloader n) = {}"
    by (simp_all add: newDownloader_def)
  have i: "seen (newDownloader n) = fst ` set (started (newDownloader n))"
    by (simp add: e)
  have a: "distinct (map fst (started ?d))"
    by (rule ScheduleAll_distinct[OF i]) (simp add: e)
  have b: "map_of (started ?d) = map_of cs"
    using ScheduleAll_map_of[OF i, of cs] by (simp add: e)
  have c: "seen ?d = fst ` set cs"
    using ScheduleAll_keys[of "newDownloader n" cs] by (simp add: e)
  have d: "seen ?d = fst ` set (started ?d)"
    by (rule ScheduleAll_seen[OF i])
  have "Schedule ?d u dest' = ?d \<and> length (filter (\<lambda>t. fst t = u) (started ?d)) = 1"
    if "u \<in> fst ` set cs" for u dest'
  proof -
    have "u \<in> seen ?d" using that c by simp
    then have "Schedule ?d u dest' = ?d" by (simp add: Schedule_def)
    moreover have "u \<in> fst ` set (started ?d)" using that c d by simp
    then have "length (filter (\<lambda>t. fst t = u) (started ?d)) = 1"
      by (rule one_task[OF a])
    ultimately show ?thesis by simp
  qed
  with a b show ?thesis by blast
qed

theorem Schedule_idempotent_witness:
  "distinct (map fst (started (ScheduleAll (newDownloader 6) [(''u'', ''a''), (''v'', ''b''), (''u'', ''c'')]))) \<and>
   started (ScheduleAll (newDownloader 6) [(''u'', ''a''), (''v'', ''b''), (''u'', ''c'')]) = [(''u'', ''a''), (''v'', ''b'')] \<and>
   ''u'' \<in> fst ` set [(''u'', ''a''), (''v'', ''b''), (''u'', ''c'')] \<and>
   Schedule (ScheduleAll (newDownloader 6) [(''u'', ''a''), (''v'', ''b''), (''u'', ''c'')]) ''u'' ''d'' =
     ScheduleAll (newDownloader 6) [(''u'', ''a''), (''v'', ''b''), (''u'', ''c'')] \<and>
   length (filter (\<lambda>t. fst t = ''u'') (started (ScheduleAll (newDownloader 6) [(''u'', ''a''), (''v'', ''b''), (''u'', ''c'')]))) = 1"
proof -
  have m: "''u'' \<in> fst ` set [(''u'', ''a''), (''v'', ''b''), (''u'', ''c'')]" by simp
  have s: "started (ScheduleAll (newDownloader 6) [(''u'', ''a''), (''v'', ''b''), (''u'', ''c'')]) = [(''u'', ''a''), (''v'', ''b'')]"
    by (simp add: Schedule_def newDownloader_def)
  from Schedule_idempotent[of 6 "[(''u'', ''a''), (''v'', ''b''), (''u'', ''c'')]"] m s
  show ?thesis by blast
qed

subsection \<open>Retries\<close>

lemma loop_end: "3 < attempt \<Longrightarrow> downloadLoop e dest attempt l st = (l, st)"
  by (subst downloadLoop.simps) simp

lemma loop_retried:
  "attempt \<le> 3 \<Longrightarrow> newRequest_ok e \<Longrightarrow> retried (io e attempt) \<Longrightarrow>
   \<exists>err. downloadLoop e dest attempt l st =
     (if attempt < 3
      then downloadLoop e dest (attempt + 1) (Some err)
             (st\<lparr>attempts := attempts st + 1, sleeps := sleeps st @ [attempt * 2]\<rparr>)
      else (Some err, st\<lparr>attempts := attempts st + 1\<rparr>))"
  by (subst downloadLoop.simps)
     (auto simp: retried_def onResponse_def sleepAfter_def loop_end split: do_result.splits)

lemma loop_clientError:
  "attempt \<le> 3 \<Longrightarrow> newRequest_ok e \<Longrightarrow> clientError (io e attempt) \<Longrightarrow>
   \<exists>err. downloadLoop e dest attempt l st = (Some err, st\<lparr>attempts := attempts st + 1\<rparr>)"
  by (subst downloadLoop.simps)
     (auto simp: clientError_def onResponse_def sleepAfter_def loop_end split: do_result.splits)

lemma loop_succeeds:
  "attempt \<le> 3 \<Longrightarrow> newRequest_ok e \<Longrightarrow> succeeds (io e attempt) \<Longrightarrow>
   downloadLoop e dest attempt l st =
     (None, st\<lparr>attempts := attempts st + 1, files := (files st)(dest \<mapsto> copy_written (io e attempt))\<rparr>)"
  by (subst downloadLoop.simps)
     (auto simp: succeeds_def onResponse_def sleepAfter_def loop_end Let_def split: do_result.splits)

lemma loop_bound:
  "attempt \<ge> 1 \<Longrightarrow> attempts (snd (downloadLoop e dest attempt l st)) \<le> attempts st + (4 - attempt)"
proof (induction e dest attempt l st rule: downloadLoop.induct)
  case (1 e dest attempt lastErr st)
  show ?case
  proof (cases "attempt \<le> 3 \<and> newRequest_ok e")
    case False
    then show ?thesis by (subst downloadLoop.simps) auto
  next
    case True
    show ?thesis
    proof (cases "resp (io e attempt)")
      case DoErr
      show ?thesis
      proof (cases "attempt < 3")
        case l: True
        have "attempts (snd (downloadLoop e dest (attempt + 1) (Some ErrTransport)
                  (sleepAfter attempt (st\<lparr>attempts := attempts st + 1\<rparr>))))
              \<le> attempts (sleepAfter attempt (st\<lparr>attempts := attempts st + 1\<rparr>)) + (4 - (attempt + 1))"
          using "1.IH"(1)[OF _ _ refl DoErr l] True by simp
        then show ?thesis using True DoErr l
          by (subst downloadLoop.simps) (simp add: sleepAfter_def)
      next
        case False
        then show ?thesis using True DoErr by (subst downloadLoop.simps) simp
      qed
    next
      case (DoResp status)
      obtain le a' st2 where o: "onResponse (io e attempt) dest status attempt (st\<lparr>attempts := attempts st + 1\<rparr>) = (le, a', st2)"
        by (metis prod_cases3)
      have a': "a' = attempt \<or> a' = 3" and st2: "attempts st2 = attempts st + 1"
        using o by (auto simp: onResponse_def Let_def split: if_splits)
      show ?thesis
      proof (cases le)
        case None
        then show ?thesis using True DoResp o st2 by (subst downloadLoop.simps) auto
      next
        case (Some err)
        have "attempts (snd (downloadLoop e dest (a' + 1) (Some err) (sleepAfter a' st2)))
              \<le> attempts (sleepAfter a' st2) + (4 - (a' + 1))"
        proof -
          have c1: "attempt \<le> 3" and c2: "\<not> \<not> newRequest_ok e" using True by simp_all
          have o': "(le, (a', st2)) = onResponse (io e attempt) dest status attempt (st\<lparr>attempts := attempts st + 1\<rparr>)"
            using o by simp
          show ?thesis by (rule "1.IH"(2)[OF c1 c2 refl DoResp o' Some refl]) simp
        qed
        then show ?thesis using True DoResp o st2 Some a'
          by (subst downloadLoop.simps) (auto simp: sleepAfter_def)
      qed
    qed
  qed
qed

lemma retried_prefix:
  assumes ok: "newRequest_ok e" and k: "1 \<le> k" "k \<le> 3"
    and r: "\<forall>j\<in>{1..<k}. retried (io e j)"
  shows "\<exists>l'. downloadLoop e dest 1 l st =
     downloadLoop e dest k l'
       (st\<lparr>attempts := attempts st + (k - 1), sleeps := sleeps st @ map (\<lambda>j. j * 2) [1..<k]\<rparr>)"
proof -
  consider "k = 1" | "k = 2" | "k = 3" using k by linarith
  then show ?thesis
  proof cases
    case 1
    then show ?thesis by (intro exI[of _ l]) simp
  next
    case 2
    then have "retried (io e 1)" using r by simp
    from loop_retried[OF _ ok this, of dest l st] 2 show ?thesis
      by (auto simp: eval_nat_numeral)
  next
    case 3
    then have r1: "retried (io e 1)" and r2: "retried (io e 2)" using r by simp_all
    from loop_retried[OF _ ok r1, of dest l st] obtain e1 where
      a: "downloadLoop e dest 1 l st = downloadLoop e dest 2 (Some e1)
             (st\<lparr>attempts := attempts st + 1, sleeps := sleeps st @ [2]\<rparr>)"
      by (auto simp: eval_nat_numeral)
    from loop_retried[OF _ ok r2, of dest "Some e1" "st\<lparr>attempts := attempts st + 1, sleeps := sleeps st @ [2]\<rparr>"]
    obtain e2 where
      b: "downloadLoop e dest 2 (Some e1) (st\<lparr>attempts := attempts st + 1, sleeps := sleeps st @ [2]\<rparr>)
          = downloadLoop e dest 3 (Some e2)
             (st\<lparr>attempts := attempts st + 2, sleeps := sleeps st @ [2, 4]\<rparr>)"
      by (auto simp: eval_nat_numeral)
    have "[1..<3] = [1, 2::nat]" by (simp add: upt_rec)
    with a b 3 show ?thesis by (intro exI[of _ "Some e2"]) simp
  qed
qed

text \<open>
  C3. \<open>downloadFile\<close> calls \<open>client.Do\<close> at most three times. When the passes before the
  \<open>k\<close>-th met a transport error or a status of 500 and above, and the \<open>k\<close>-th meets a
  status from 400 to 499, the download fails after exactly \<open>k\<close> calls: a client error on the
  first pass gives one call and no delay. When all three passes meet a transport error or a
  status of 500 and above (a server that always answers 503), the download fails after
  exactly three calls, with delays of 2 and 4 seconds between them. A pass that succeeds
  ends the download with no error. In each case the delay after pass \<open>j\<close> is \<open>2 * j\<close>
  seconds.
\<close>

theorem downloadFile_retries:
  "attempts (snd (downloadFile e dest st)) \<le> attempts st + 3 \<and>
   (newRequest_ok e \<longrightarrow>
     (\<forall>k\<in>{1..3}. (\<forall>j\<in>{1..<k}. retried (io e j)) \<and> clientError (io e k) \<longrightarrow>
        fst (downloadFile e dest st) \<noteq> None \<and>
        attempts (snd (downloadFile e dest st)) = attempts st + k \<and>
        sleeps (snd (downloadFile e dest st)) = sleeps st @ map (\<lambda>j. j * 2) [1..<k]) \<and>
     ((\<forall>j\<in>{1..3}. retried (io e j)) \<longrightarrow>
        fst (downloadFile e dest st) \<noteq> None \<and>
        attempts (snd (downloadFile e dest st)) = attempts st + 3 \<and>
        sleeps (snd (downloadFile e dest st)) = sleeps st @ [2, 4]) \<and>
     (\<forall>k\<in>{1..3}. (\<forall>j\<in>{1..<k}. retried (io e j)) \<and> succeeds (io e k) \<longrightarrow>
        fst (downloadFile e dest st) = None \<and>
        attempts (snd (downloadFile e dest st)) = attempts st + k \<and>
        sleeps (snd (downloadFile e dest st)) = sleeps st @ map (\<lambda>j. j * 2) [1..<k]))"
proof -
  have bound: "attempts (snd (downloadFile e dest st)) \<le> attempts st + 3"
    using loop_bound[of 1 e dest None st] by (simp add: downloadFile_def)
  have client: "fst (downloadFile e dest st) \<noteq> None \<and>
        attempts (snd (downloadFile e dest st)) = attempts st + k \<and>
        sleeps (snd (downloadFile e dest st)) = sleeps st @ map (\<lambda>j. j * 2) [1..<k]"
    if ok: "newRequest_ok e" and k: "k \<in> {1..3}" and r: "\<forall>j\<in>{1..<k}. retried (io e j)"
      and c: "clientError (io e k)" for k
  proof -
    from k have k1: "1 \<le> k" and k3: "k \<le> 3" by simp_all
    from retried_prefix[OF ok k1 k3 r, of dest None st] obtain l' where
      p: "downloadLoop e dest 1 None st = downloadLoop e dest k l'
       (st\<lparr>attempts := attempts st + (k - 1), sleeps := sleeps st @ map (\<lambda>j. j * 2) [1..<k]\<rparr>)"
      by blast
    from loop_clientError[OF k3 ok c] obtain err where
      q: "downloadLoop e dest k l'
       (st\<lparr>attempts := attempts st + (k - 1), sleeps := sleeps st @ map (\<lambda>j. j * 2) [1..<k]\<rparr>) =
        (Some err, st\<lparr>attempts := attempts st + (k - 1), sleeps := sleeps st @ map (\<lambda>j. j * 2) [1..<k]\<rparr>
            \<lparr>attempts := attempts (st\<lparr>attempts := attempts st + (k - 1), sleeps := sleeps st @ map (\<lambda>j. j * 2) [1..<k]\<rparr>) + 1\<rparr>)"
      by blast
    show ?thesis using p q k1 by (simp add: downloadFile_def)
  qed
  have succ: "fst (downloadFile e dest st) = None \<and>
        attempts (snd (downloadFile e dest st)) = attempts st + k \<and>
        sleeps (snd (downloadFile e dest st)) = sleeps st @ map (\<lambda>j. j * 2) [1..<k]"
    if ok: "newRequest_ok e" and k: "k \<in> {1..3}" and r: "\<forall>j\<in>{1..<k}. retried (io e j)"
      and c: "succeeds (io e k)" for k
  proof -
    from k have k1: "1 \<le> k" and k3: "k \<le> 3" by simp_all
    from retried_prefix[OF ok k1 k3 r, of dest None st] obtain l' where
      p: "downloadLoop e dest 1 None st = downloadLoop e dest k l'
       (st\<lparr>attempts := attempts st + (k - 1), sleeps := sleeps st @ map (\<lambda>j. j * 2) [1..<k]\<rparr>)"
      by blast
    show ?thesis using p k1 by (simp add: downloadFile_def loop_succeeds[OF k3 ok c])
  qed
  have all: "fst (downloadFile e dest st) \<noteq> None \<and>
        attempts (snd (downloadFile e dest st)) = attempts st + 3 \<and>
        sleeps (snd (downloadFile e dest st)) = sleeps st @ [2, 4]"
    if ok: "newRequest_ok e" and r: "\<forall>j\<in>{1..3}. retried (io e j)"
  proof -
    have r': "\<forall>j\<in>{1..<3}. retried (io e j)" using r by simp
    have r3: "retried (io e 3)" using r by simp
    from retried_prefix[OF ok _ _ r', of dest None st] obtain l' where
      p: "downloadLoop e dest 1 None st = downloadLoop e dest 3 l'
       (st\<lparr>attempts := attempts st + 2, sleeps := sleeps st @ map (\<lambda>j. j * 2) [1..<3]\<rparr>)"
      by auto
    have u: "[1..<3] = [1, 2::nat]" by (simp add: upt_rec)
    from loop_retried[OF _ ok r3, of dest l' "st\<lparr>attempts := attempts st + 2, sleeps := sleeps st @ map (\<lambda>j. j * 2) [1..<3]\<rparr>"]
    show ?thesis using p u by (auto simp: downloadFile_def)
  qed
  show ?thesis using bound client succ all by blast
qed

theorem downloadFile_retries_witness:
  "fst (downloadFile \<lparr>newRequest_ok = True, io = (\<lambda>k. respond 503)\<rparr> ''d'' fresh) \<noteq> None \<and>
   attempts (snd (downloadFile \<lparr>newRequest_ok = True, io = (\<lambda>k. respond 503)\<rparr> ''d'' fresh)) = 3 \<and>
   sleeps (snd (downloadFile \<lparr>newRequest_ok = True, io = (\<lambda>k. respond 503)\<rparr> ''d'' fresh)) = [2, 4] \<and>
   fst (downloadFile \<lparr>newRequest_ok = True, io = (\<lambda>k. respond 404)\<rparr> ''d'' fresh) \<noteq> None \<and>
   attempts (snd (downloadFile \<lparr>newRequest_ok = True, io = (\<lambda>k. respond 404)\<rparr> ''d'' fresh)) = 1 \<and>
   sleeps (snd (downloadFile \<lparr>newRequest_ok = True, io = (\<lambda>k. respond 404)\<rparr> ''d'' fresh)) = [] \<and>
   fst (downloadFile \<lparr>newRequest_ok = True,
          io = (\<lambda>k. if k = 1 then respond 503 else respond 200)\<rparr> ''d'' fresh) = None \<and>
   attempts (snd (downloadFile \<lparr>newRequest_ok = True,
          io = (\<lambda>k. if k = 1 then respond 503 else respond 200)\<rparr> ''d'' fresh)) = 2 \<and>
   sleeps (snd (downloadFile \<lparr>newRequest_ok = True,
          io = (\<lambda>k. if k = 1 then respond 503 else respond 200)\<rparr> ''d'' fresh)) = [2]"
proof -
  let ?a = "\<lparr>newRequest_ok = True, io = (\<lambda>k. respond 503)\<rparr>"
  let ?b = "\<lparr>newRequest_ok = True, io = (\<lambda>k. respond 404)\<rparr>"
  let ?c = "\<lparr>newRequest_ok = True, io = (\<lambda>k. if k = 1 then respond 503 else respond 200)\<rparr>"
  note A0 = downloadFile_retries[of ?a "''d''" fresh]
  note B0 = downloadFile_retries[of ?b "''d''" fresh]
  note C0 = downloadFile_retries[of ?c "''d''" fresh]
  have oka: "newRequest_ok ?a" and okb: "newRequest_ok ?b" and okc: "newRequest_ok ?c"
    by simp_all
  have a: "\<forall>j\<in>{1..3}. retried (io ?a j)"
    by (simp add: retried_def respond_def)
  have b: "(\<forall>j\<in>{1..<1}. retried (io ?b j)) \<and> clientError (io ?b 1)"
    by (simp add: clientError_def respond_def)
  have c: "(\<forall>j\<in>{1..<2}. retried (io ?c j)) \<and> succeeds (io ?c 2)"
    by (simp add: retried_def succeeds_def respond_def)
  have k1: "(1::nat) \<in> {1..3}" and k2: "(2::nat) \<in> {1..3}" by simp_all
  have u: "[1..<2] = [1::nat]" by (simp add: upt_rec)
  have A: "fst (downloadFile ?a ''d'' fresh) \<noteq> None \<and>
        attempts (snd (downloadFile ?a ''d'' fresh)) = attempts fresh + 3 \<and>
        sleeps (snd (downloadFile ?a ''d'' fresh)) = sleeps fresh @ [2, 4]"
    using A0 oka a by blast
  have B: "fst (downloadFile ?b ''d'' fresh) \<noteq> None \<and>
        attempts (snd (downloadFile ?b ''d'' fresh)) = attempts fresh + 1 \<and>
        sleeps (snd (downloadFile ?b ''d'' fresh)) = sleeps fresh @ map (\<lambda>j. j * 2) [1..<1]"
    using B0 okb b k1 by blast
  have C: "fst (downloadFile ?c ''d'' fresh) = None \<and>
        attempts (snd (downloadFile ?c ''d'' fresh)) = attempts fresh + 2 \<and>
        sleeps (snd (downloadFile ?c ''d'' fresh)) = sleeps fresh @ map (\<lambda>j. j * 2) [1..<2]"
    using C0 okc c k2 by blast
  show ?thesis using A B C u by (simp add: fresh_def)
qed

subsection \<open>Partial files\<close>





lemma onResponse_client:
  "onResponse a dest status attempt st = (Some err, a', st2) \<Longrightarrow> a' \<noteq> attempt \<Longrightarrow> st2 = st"
  by (auto simp: onResponse_def Let_def split: if_splits)




section \<open>Results on the media locator\<close>

subsection \<open>File names\<close>

lemma path_Base_not_empty: "path_Base p \<noteq> []"
  by (simp add: path_Base_def Let_def)

lemma filenameFromURL_parsed:
  "url_Parse raw = Inr u \<Longrightarrow>
   filenameFromURL raw = (if path_Base (Path u) = ''/'' then ''image'' else path_Base (Path u))"
  by (simp add: filenameFromURL_def Let_def path_Base_not_empty)

text \<open>
  C10, as amended. For an input that parses as a URL, \<open>filenameFromURL\<close> depends on the
  path component only: it returns \<open>path.Base\<close> of the path, or \<open>image\<close> when that base name
  is \<open>/\<close>. So two different URLs with equal paths get the same file name and, for the same
  static directory, media area and slug, the same destination; a downloader that has not
  seen either starts a download for each, both writing that destination.
\<close>

theorem filenameFromURL_path_only:
  "(url_Parse raw = Inr u \<longrightarrow>
      filenameFromURL raw = (if path_Base (Path u) = ''/'' then ''image'' else path_Base (Path u))) \<and>
   (url_Parse a = Inr ua \<and> url_Parse b = Inr ub \<and> Path ua = Path ub \<and> a \<noteq> b \<longrightarrow>
      filenameFromURL a = filenameFromURL b \<and>
      mediaDest sdir area sl a = mediaDest sdir area sl b \<and>
      started (Schedule (Schedule (newDownloader n) a (mediaDest sdir area sl a))
                 b (mediaDest sdir area sl b)) =
        [(a, mediaDest sdir area sl a), (b, mediaDest sdir area sl a)])"
proof (intro conjI impI)
  assume "url_Parse raw = Inr u"
  then show "filenameFromURL raw = (if path_Base (Path u) = ''/'' then ''image'' else path_Base (Path u))"
    by (rule filenameFromURL_parsed)
next
  assume h: "url_Parse a = Inr ua \<and> url_Parse b = Inr ub \<and> Path ua = Path ub \<and> a \<noteq> b"
  then show f: "filenameFromURL a = filenameFromURL b"
    by (simp add: filenameFromURL_parsed)
  then show d: "mediaDest sdir area sl a = mediaDest sdir area sl b"
    by (simp add: mediaDest_def)
  show "started (Schedule (Schedule (newDownloader n) a (mediaDest sdir area sl a))
                 b (mediaDest sdir area sl b)) =
        [(a, mediaDest sdir area sl a), (b, mediaDest sdir area sl a)]"
  proof -
    from h have ne: "b \<noteq> a" by blast
    show ?thesis unfolding d[symmetric] using ne by (simp add: Schedule_def newDownloader_def)
  qed
qed

theorem filenameFromURL_path_only_witness:
  "url_Parse ''https://x/a.jpg'' = Inr (emptyURL\<lparr>Scheme := ''https'', Host := ''x'', Path := ''/a.jpg''\<rparr>) \<and>
   url_Parse ''https://x/a.jpg?v=2'' =
     Inr (emptyURL\<lparr>Scheme := ''https'', Host := ''x'', Path := ''/a.jpg'', RawQuery := ''v=2''\<rparr>) \<and>
   ''https://x/a.jpg'' \<noteq> ''https://x/a.jpg?v=2'' \<and>
   filenameFromURL ''https://x/a.jpg'' = ''a.jpg'' \<and>
   filenameFromURL ''https://x/a.jpg?v=2'' = ''a.jpg'' \<and>
   mediaDest ''static'' ''images'' ''2024-01-test'' ''https://x/a.jpg'' = ''static/images/2024-01-test/a.jpg'' \<and>
   mediaDest ''static'' ''images'' ''2024-01-test'' ''https://x/a.jpg?v=2'' = ''static/images/2024-01-test/a.jpg'' \<and>
   started (Schedule (Schedule (newDownloader 6) ''https://x/a.jpg'' ''static/images/2024-01-test/a.jpg'')
              ''https://x/a.jpg?v=2'' ''static/images/2024-01-test/a.jpg'') =
     [(''https://x/a.jpg'', ''static/images/2024-01-test/a.jpg''),
      (''https://x/a.jpg?v=2'', ''static/images/2024-01-test/a.jpg'')]"
proof -
  let ?ua = "emptyURL\<lparr>Scheme := ''https'', Host := ''x'', Path := ''/a.jpg''\<rparr>"
  let ?ub = "emptyURL\<lparr>Scheme := ''https'', Host := ''x'', Path := ''/a.jpg'', RawQuery := ''v=2''\<rparr>"
  have pa: "url_Parse ''https://x/a.jpg'' = Inr ?ua" by (simp add: url_eval)
  have pb: "url_Parse ''https://x/a.jpg?v=2'' = Inr ?ub" by (simp add: url_eval)
  have ne: "''https://x/a.jpg'' \<noteq> ''https://x/a.jpg?v=2''" by simp
  have pe: "Path ?ua = Path ?ub" by (simp add: emptyURL_def)
  have base: "path_Base (Path ?ua) = ''a.jpg''" by (simp add: emptyURL_def path_eval)
  note T = filenameFromURL_path_only[of "''https://x/a.jpg''" ?ua "''https://x/a.jpg''" ?ua
      "''https://x/a.jpg?v=2''" ?ub "''static''" "''images''" "''2024-01-test''" 6]
  have fa: "filenameFromURL ''https://x/a.jpg'' = ''a.jpg''" using T pa base by simp
  have fb: "filenameFromURL ''https://x/a.jpg?v=2'' = ''a.jpg''" using T pa pb ne pe fa by simp
  have da: "mediaDest ''static'' ''images'' ''2024-01-test'' ''https://x/a.jpg'' = ''static/images/2024-01-test/a.jpg''"
    by (simp add: mediaDest_def fa path_eval)
  have db: "mediaDest ''static'' ''images'' ''2024-01-test'' ''https://x/a.jpg?v=2'' = ''static/images/2024-01-test/a.jpg''"
    using T pa pb ne pe da by simp
  have st: "started (Schedule (Schedule (newDownloader 6) ''https://x/a.jpg'' ''static/images/2024-01-test/a.jpg'')
              ''https://x/a.jpg?v=2'' ''static/images/2024-01-test/a.jpg'') =
     [(''https://x/a.jpg'', ''static/images/2024-01-test/a.jpg''),
      (''https://x/a.jpg?v=2'', ''static/images/2024-01-test/a.jpg'')]"
    using T pa pb ne pe da db by simp
  show ?thesis using pa pb ne fa fb da db st by blast
qed

text \<open>
  The claim as stated fails for a path of slashes only: the base name of the path of
  \<open>https://x/\<close> is \<open>/\<close>, and the file name is \<open>image\<close>.
\<close>

theorem filenameFromURL_path_only_counterexample:
  "url_Parse ''https://x/'' = Inr (emptyURL\<lparr>Scheme := ''https'', Host := ''x'', Path := ''/''\<rparr>) \<and>
   path_Base ''/'' = ''/'' \<and>
   filenameFromURL ''https://x/'' = ''image''"
proof -
  have p: "url_Parse ''https://x/'' = Inr (emptyURL\<lparr>Scheme := ''https'', Host := ''x'', Path := ''/''\<rparr>)"
    by (simp add: url_eval)
  have b: "path_Base ''/'' = ''/''" by (simp add: path_eval)
  have "filenameFromURL ''https://x/'' = ''image''"
    using filenameFromURL_parsed[OF p] b by (simp add: emptyURL_def)
  with p b show ?thesis by blast
qed

subsection \<open>Best-source selection\<close>

lemma digit_not_space: "isDigit c \<Longrightarrow> \<not> reSpace c"
  by (auto simp: isDigit_def reSpace_def)

lemma w_not_digit: "\<not> isDigit CHR ''w''"
  by (simp add: isDigit_def)

lemma srcsetMatchAt_entry:
  assumes u: "u \<noteq> []" "list_all urlChar u" and gap: "gap \<noteq> []" "list_all reSpace gap"
    and ds: "ds \<noteq> []" "list_all isDigit ds"
  shows "srcsetMatchAt (u @ gap @ ds @ ''w'' @ rest) = Some (u, ds, rest)"
proof -
  obtain c u' where uc: "u = c # u'" using u(1) by (cases u) auto
  obtain g gap' where gc: "gap = g # gap'" using gap(1) by (cases gap) auto
  obtain d ds' where dc: "ds = d # ds'" using ds(1) by (cases ds) auto
  have c: "urlChar c" using u(2) uc by simp
  then have c1: "c \<noteq> CHR '',''" and c2: "\<not> reSpace c" by (simp_all add: urlChar_def)
  have g: "reSpace g" using gap(2) gc by simp
  then have gn: "\<not> urlChar g" by (simp add: urlChar_def)
  have d: "isDigit d" using ds(2) dc by simp
  have ua: "\<forall>x\<in>set u. urlChar x" using u(2) by (simp add: list_all_iff)
  have ga: "\<forall>x\<in>set gap. reSpace x" using gap(2) by (simp add: list_all_iff)
  have da: "\<forall>x\<in>set ds. isDigit x" using ds(2) by (simp add: list_all_iff)
  let ?t = "u @ gap @ ds @ ''w'' @ rest"
  have s1: "(if ?t \<noteq> [] \<and> hd ?t = CHR '','' then tl ?t else ?t) = ?t" using uc c1 by simp
  have s2: "dropWhile reSpace ?t = ?t" using uc c2 by simp
  have tu: "takeWhile urlChar ?t = u"
    using ua gn gc by (simp add: takeWhile_append2)
  have du: "dropWhile urlChar ?t = gap @ ds @ ''w'' @ rest"
    using ua gn gc by (simp add: dropWhile_append2)
  have ts: "takeWhile reSpace (gap @ ds @ ''w'' @ rest) = gap"
    using ga dc d digit_not_space by (simp add: takeWhile_append2)
  have dsp: "dropWhile reSpace (gap @ ds @ ''w'' @ rest) = ds @ ''w'' @ rest"
    using ga dc d digit_not_space by (simp add: dropWhile_append2)
  have td: "takeWhile isDigit (ds @ ''w'' @ rest) = ds"
    using da w_not_digit by (simp add: takeWhile_append2)
  have dd: "dropWhile isDigit (ds @ ''w'' @ rest) = ''w'' @ rest"
    using da w_not_digit by (simp add: dropWhile_append2)
  show ?thesis
    unfolding srcsetMatchAt_def Let_def s1 s2 tu du ts dsp td dd using u(1) gap(1) ds(1) by simp
qed

lemma srcsetMatchAt_same_start:
  assumes "dropWhile reSpace (if a \<noteq> [] \<and> hd a = CHR '','' then tl a else a) =
           dropWhile reSpace (if b \<noteq> [] \<and> hd b = CHR '','' then tl b else b)"
  shows "srcsetMatchAt a = srcsetMatchAt b"
  using assms by (simp only: srcsetMatchAt_def Let_def)

lemma srcsetMatchAt_comma:
  assumes "dropWhile reSpace (if a \<noteq> [] \<and> hd a = CHR '','' then tl a else a) = CHR '','' # r"
  shows "srcsetMatchAt a = None"
  by (simp only: srcsetMatchAt_def Let_def assms) (simp add: urlChar_def)

lemma srcsetMatchAt_end:
  assumes "dropWhile reSpace (if a \<noteq> [] \<and> hd a = CHR '','' then tl a else a) = []"
  shows "srcsetMatchAt a = None"
  by (simp only: srcsetMatchAt_def Let_def assms) simp

text \<open>Past separators the search meets a comma, the end of the text, or what follows them.\<close>

lemma dropWhile_seps:
  "list_all sepChar p \<Longrightarrow>
   dropWhile reSpace (p @ b) = dropWhile reSpace b \<or> (\<exists>r. dropWhile reSpace (p @ b) = CHR '','' # r)"
  by (induction p) (auto simp: sepChar_def)

lemma srcsetMatchAt_seps:
  assumes p: "list_all sepChar p" and b: "b = [] \<or> urlChar (hd b)"
  shows "srcsetMatchAt (p @ b) = None \<or> srcsetMatchAt (p @ b) = srcsetMatchAt b"
proof -
  have b0: "(if b \<noteq> [] \<and> hd b = CHR '','' then tl b else b) = b"
    using b by (auto simp: urlChar_def)
  have b1: "dropWhile reSpace b = b" using b by (cases b) (auto simp: urlChar_def)
  let ?a = "p @ b"
  have "\<exists>p'. (if ?a \<noteq> [] \<and> hd ?a = CHR '','' then tl ?a else ?a) = p' @ b \<and> list_all sepChar p'"
  proof (cases p)
    case Nil
    have "(if ?a \<noteq> [] \<and> hd ?a = CHR '','' then tl ?a else ?a) = [] @ b"
      unfolding Nil using b by (auto simp: urlChar_def)
    then show ?thesis by (intro exI[of _ "[]"]) simp
  next
    case (Cons c q)
    show ?thesis
    proof (cases "c = CHR '',''")
      case True
      have "(if ?a \<noteq> [] \<and> hd ?a = CHR '','' then tl ?a else ?a) = q @ b"
        unfolding Cons using True by simp
      moreover have "list_all sepChar q" using p Cons by simp
      ultimately show ?thesis by blast
    next
      case False
      have "(if ?a \<noteq> [] \<and> hd ?a = CHR '','' then tl ?a else ?a) = p @ b"
        unfolding Cons using False by simp
      then show ?thesis using p by blast
    qed
  qed
  then obtain p' where p': "(if ?a \<noteq> [] \<and> hd ?a = CHR '','' then tl ?a else ?a) = p' @ b"
    and sp: "list_all sepChar p'" by blast
  from dropWhile_seps[OF sp, of b] show ?thesis
  proof (elim disjE exE)
    assume "dropWhile reSpace (p' @ b) = dropWhile reSpace b"
    then have "srcsetMatchAt ?a = srcsetMatchAt b"
      by (intro srcsetMatchAt_same_start) (simp only: p' b0)
    then show ?thesis by simp
  next
    fix r assume "dropWhile reSpace (p' @ b) = CHR '','' # r"
    then have "srcsetMatchAt ?a = None"
      by (intro srcsetMatchAt_comma[of _ r]) (simp only: p')
    then show ?thesis by simp
  qed
qed

lemma srcsetFindAll_Nil: "srcsetFindAll [] = []"
  by (subst srcsetFindAll.simps) (simp add: srcsetMatchAt_def)

lemma srcsetFindAll_seps: "list_all sepChar p \<Longrightarrow> srcsetFindAll p = []"
proof (induction p)
  case Nil
  show ?case by (rule srcsetFindAll_Nil)
next
  case (Cons c p)
  have "srcsetMatchAt ((c # p) @ []) = None \<or> srcsetMatchAt ((c # p) @ []) = srcsetMatchAt []"
    by (rule srcsetMatchAt_seps[OF Cons.prems]) simp
  then have n: "srcsetMatchAt (c # p) = None" by (auto simp: srcsetMatchAt_def)
  from Cons have ih: "srcsetFindAll p = []" by simp
  show ?case by (subst srcsetFindAll.simps) (simp add: n ih)
qed

lemma srcsetFindAll_entry:
  assumes p: "list_all sepChar p" and u: "u \<noteq> []" "list_all urlChar u"
    and gap: "gap \<noteq> []" "list_all reSpace gap" and ds: "ds \<noteq> []" "list_all isDigit ds"
  shows "srcsetFindAll (p @ u @ gap @ ds @ ''w'' @ rest) = (u, ds) # srcsetFindAll rest"
  using p
proof (induction p)
  case Nil
  show ?case
    using srcsetMatchAt_entry[OF u gap ds, of rest] by (subst srcsetFindAll.simps) simp
next
  case (Cons c p)
  let ?b = "u @ gap @ ds @ ''w'' @ rest"
  have hb: "?b = [] \<or> urlChar (hd ?b)" using u by (cases u) simp_all
  from Cons have ih: "srcsetFindAll (p @ ?b) = (u, ds) # srcsetFindAll rest" by simp
  from srcsetMatchAt_seps[OF Cons.prems hb]
  have "srcsetMatchAt (c # p @ ?b) = None \<or> srcsetMatchAt (c # p @ ?b) = Some (u, ds, rest)"
    using srcsetMatchAt_entry[OF u gap ds, of rest] by simp
  then show ?case
  proof
    assume n: "srcsetMatchAt (c # p @ ?b) = None"
    have "srcsetFindAll (c # p @ ?b) = srcsetFindAll (p @ ?b)"
      using n by (subst srcsetFindAll.simps) simp
    then show ?thesis using ih by simp
  next
    assume m: "srcsetMatchAt (c # p @ ?b) = Some (u, ds, rest)"
    have "srcsetFindAll (c # p @ ?b) = (u, ds) # srcsetFindAll rest"
      using m by (subst srcsetFindAll.simps) simp
    then show ?thesis by simp
  qed
qed

text \<open>The matches in a list of entries are its entries, in order.\<close>

lemma srcsetFindAll_text:
  "list_all wellFormedEntry es \<Longrightarrow> list_all sepChar end \<Longrightarrow>
   srcsetFindAll (srcsetText es end) = map (\<lambda>e. (entryURL e, entryDigits e)) es"
proof (induction es)
  case Nil
  then show ?case by (simp add: srcsetText_def srcsetFindAll_seps)
next
  case (Cons e es)
  obtain sep u gap ds where e: "e = (sep, u, gap, ds)" by (cases e) auto
  from Cons.prems e have wf: "list_all sepChar sep" "u \<noteq> []" "list_all urlChar u"
      "gap \<noteq> []" "list_all reSpace gap" "ds \<noteq> []" "list_all isDigit ds"
    by (simp_all add: wellFormedEntry_def)
  from Cons have ih: "srcsetFindAll (srcsetText es end) = map (\<lambda>e. (entryURL e, entryDigits e)) es"
    by simp
  have "srcsetText (e # es) end = sep @ u @ gap @ ds @ ''w'' @ srcsetText es end"
    by (simp add: srcsetText_def entryText_def e)
  then show ?case
    using srcsetFindAll_entry[OF wf, of "srcsetText es end"] ih
    by (simp add: e entryURL_def entryDigits_def)
qed

text \<open>The scan keeps the first entry of maximal width, the width being what \<open>Sscanf\<close> reads.\<close>

lemma Sscanf_d_nonneg: "0 \<le> Sscanf_d ds"
  by (simp add: Sscanf_d_def)

lemma pick_scan:
  "(foldl pickStep (b, m) es = (b, m) \<and> (\<forall>j<length es. Sscanf_d (snd (es ! j)) \<le> m)) \<or>
   (\<exists>i<length es. foldl pickStep (b, m) es = (fst (es ! i), Sscanf_d (snd (es ! i))) \<and>
      m < Sscanf_d (snd (es ! i)) \<and>
      (\<forall>j<length es. Sscanf_d (snd (es ! j)) \<le> Sscanf_d (snd (es ! i))) \<and>
      (\<forall>j<i. Sscanf_d (snd (es ! j)) < Sscanf_d (snd (es ! i))))"
proof (induction es rule: rev_induct)
  case Nil
  then show ?case by simp
next
  case (snoc x xs)
  let ?w = "Sscanf_d (snd x)"
  have nth_new: "(xs @ [x]) ! length xs = x" by simp
  from snoc.IH show ?case
  proof (elim disjE exE conjE)
    assume same: "foldl pickStep (b, m) xs = (b, m)"
      and le: "\<forall>j<length xs. Sscanf_d (snd (xs ! j)) \<le> m"
    show ?thesis
    proof (cases "?w > m")
      case True
      have "foldl pickStep (b, m) (xs @ [x]) = (fst x, ?w)"
        using same True by (simp add: pickStep_def)
      moreover have "\<forall>j<length (xs @ [x]). Sscanf_d (snd ((xs @ [x]) ! j)) \<le> ?w"
        using le True by (auto simp: nth_append less_Suc_eq)
      moreover have "\<forall>j<length xs. Sscanf_d (snd ((xs @ [x]) ! j)) < ?w"
        using le True by (auto simp: nth_append)
      ultimately show ?thesis using True nth_new
        by (intro disjI2 exI[of _ "length xs"]) simp
    next
      case False
      have "foldl pickStep (b, m) (xs @ [x]) = (b, m)"
        using same False by (simp add: pickStep_def)
      moreover have "\<forall>j<length (xs @ [x]). Sscanf_d (snd ((xs @ [x]) ! j)) \<le> m"
        using le False by (auto simp: nth_append less_Suc_eq)
      ultimately show ?thesis by blast
    qed
  next
    fix i
    assume i: "i < length xs"
      and at: "foldl pickStep (b, m) xs = (fst (xs ! i), Sscanf_d (snd (xs ! i)))"
      and gt: "m < Sscanf_d (snd (xs ! i))"
      and mx: "\<forall>j<length xs. Sscanf_d (snd (xs ! j)) \<le> Sscanf_d (snd (xs ! i))"
      and fs: "\<forall>j<i. Sscanf_d (snd (xs ! j)) < Sscanf_d (snd (xs ! i))"
    show ?thesis
    proof (cases "?w > Sscanf_d (snd (xs ! i))")
      case True
      have "foldl pickStep (b, m) (xs @ [x]) = (fst x, ?w)"
        using at True by (simp add: pickStep_def)
      moreover have "\<forall>j<length (xs @ [x]). Sscanf_d (snd ((xs @ [x]) ! j)) \<le> ?w"
        using mx True by (auto simp: nth_append less_Suc_eq)
      moreover have "\<forall>j<length xs. Sscanf_d (snd ((xs @ [x]) ! j)) < ?w"
        using mx True by (auto simp: nth_append)
      moreover have "m < ?w" using gt True by linarith
      ultimately show ?thesis using nth_new
        by (intro disjI2 exI[of _ "length xs"]) simp
    next
      case False
      have "foldl pickStep (b, m) (xs @ [x]) = (fst (xs ! i), Sscanf_d (snd (xs ! i)))"
        using at False by (simp add: pickStep_def)
      moreover have "\<forall>j<length (xs @ [x]). Sscanf_d (snd ((xs @ [x]) ! j)) \<le> Sscanf_d (snd (xs ! i))"
        using mx False by (auto simp: nth_append less_Suc_eq)
      ultimately show ?thesis using i gt fs
        by (intro disjI2 exI[of _ i]) (simp add: nth_append)
    qed
  qed
qed

lemma pick_first_widest:
  assumes "ms \<noteq> []"
  shows "\<exists>i<length ms. fst (foldl pickStep (b, - 1) ms) = fst (ms ! i) \<and>
      (\<forall>j<length ms. Sscanf_d (snd (ms ! j)) \<le> Sscanf_d (snd (ms ! i))) \<and>
      (\<forall>j<i. Sscanf_d (snd (ms ! j)) < Sscanf_d (snd (ms ! i)))"
proof -
  from assms have "0 < length ms" by simp
  moreover have "\<not> Sscanf_d (snd (ms ! 0)) \<le> - 1" using Sscanf_d_nonneg[of "snd (ms ! 0)"] by linarith
  ultimately have "\<not> (\<forall>j<length ms. Sscanf_d (snd (ms ! j)) \<le> - 1)" by blast
  with pick_scan[of b "- 1" ms]
  obtain i where "i < length ms"
    "foldl pickStep (b, - 1) ms = (fst (ms ! i), Sscanf_d (snd (ms ! i)))"
    "\<forall>j<length ms. Sscanf_d (snd (ms ! j)) \<le> Sscanf_d (snd (ms ! i))"
    "\<forall>j<i. Sscanf_d (snd (ms ! j)) < Sscanf_d (snd (ms ! i))"
    by blast
  then show ?thesis by (intro exI[of _ i]) simp
qed

text \<open>
  C6, as amended. \<open>pickBestSrc\<close> takes \<open>srcset\<close> without its surrounding white space and
  reads its entries as the successive matches of \<open>srcsetRe\<close>, each a URL and the digits of
  a width. Whatever \<open>src\<close> and \<open>srcset\<close> are: when there is no match (an absent or
  unparsable attribute), it returns \<open>src\<close> without its surrounding white space;
  otherwise it returns the URL of a match whose width, as \<open>Sscanf\<close> reads it into an
  \<open>int\<close>, is maximal, and every match before it is strictly narrower, so the first match
  of maximal width is kept. When the trimmed \<open>srcset\<close> is a list of entries
  \<open><url> <width>w\<close> whose URLs have neither a comma nor one of the characters \<open>\<^verbatim>\<open>\s\<close>\<close>, separated
  by commas and such characters in any number, the matches are the entries of the list
  in their order; and when in addition every width is below \<open>2^63\<close>, the result is the URL
  of the first entry of maximal width. Given \<open>a.jpg 300w, b.jpg 1024w, c.jpg 768w\<close> it
  returns \<open>b.jpg\<close>.
\<close>

theorem pickBestSrc_widest:
  "(srcsetFindAll (TrimSpace srcset) = [] \<longrightarrow> pickBestSrc src srcset = TrimSpace src) \<and>
   (srcsetFindAll (TrimSpace srcset) \<noteq> [] \<longrightarrow>
      (\<exists>i<length (srcsetFindAll (TrimSpace srcset)).
         pickBestSrc src srcset = fst (srcsetFindAll (TrimSpace srcset) ! i) \<and>
         (\<forall>j<length (srcsetFindAll (TrimSpace srcset)).
            Sscanf_d (snd (srcsetFindAll (TrimSpace srcset) ! j))
              \<le> Sscanf_d (snd (srcsetFindAll (TrimSpace srcset) ! i))) \<and>
         (\<forall>j<i. Sscanf_d (snd (srcsetFindAll (TrimSpace srcset) ! j))
              < Sscanf_d (snd (srcsetFindAll (TrimSpace srcset) ! i))))) \<and>
   (list_all wellFormedEntry es \<and> list_all sepChar end \<and> TrimSpace srcset = srcsetText es end \<longrightarrow>
      srcsetFindAll (TrimSpace srcset) = map (\<lambda>e. (entryURL e, entryDigits e)) es \<and>
      (es \<noteq> [] \<and> (\<forall>e\<in>set es. decimal (entryDigits e) < 2 ^ 63) \<longrightarrow>
         (\<exists>i<length es. pickBestSrc src srcset = entryURL (es ! i) \<and>
            (\<forall>j<length es. decimal (entryDigits (es ! j)) \<le> decimal (entryDigits (es ! i))) \<and>
            (\<forall>j<i. decimal (entryDigits (es ! j)) < decimal (entryDigits (es ! i)))))) \<and>
   pickBestSrc src ''a.jpg 300w, b.jpg 1024w, c.jpg 768w'' = ''b.jpg''"
proof (intro conjI impI)
  assume "srcsetFindAll (TrimSpace srcset) = []"
  then show "pickBestSrc src srcset = TrimSpace src" by (simp add: pickBestSrc_def)
next
  assume "srcsetFindAll (TrimSpace srcset) \<noteq> []"
  from pick_first_widest[OF this, of "TrimSpace src"]
  show "\<exists>i<length (srcsetFindAll (TrimSpace srcset)).
         pickBestSrc src srcset = fst (srcsetFindAll (TrimSpace srcset) ! i) \<and>
         (\<forall>j<length (srcsetFindAll (TrimSpace srcset)).
            Sscanf_d (snd (srcsetFindAll (TrimSpace srcset) ! j))
              \<le> Sscanf_d (snd (srcsetFindAll (TrimSpace srcset) ! i))) \<and>
         (\<forall>j<i. Sscanf_d (snd (srcsetFindAll (TrimSpace srcset) ! j))
              < Sscanf_d (snd (srcsetFindAll (TrimSpace srcset) ! i)))"
    by (simp only: pickBestSrc_def)
next
  assume h: "list_all wellFormedEntry es \<and> list_all sepChar end \<and> TrimSpace srcset = srcsetText es end"
  then show "srcsetFindAll (TrimSpace srcset) = map (\<lambda>e. (entryURL e, entryDigits e)) es"
    using srcsetFindAll_text[of es "end"] by simp
next
  assume h: "list_all wellFormedEntry es \<and> list_all sepChar end \<and> TrimSpace srcset = srcsetText es end"
    and k: "es \<noteq> [] \<and> (\<forall>e\<in>set es. decimal (entryDigits e) < 2 ^ 63)"
  let ?ms = "map (\<lambda>e. (entryURL e, entryDigits e)) es"
  have all: "srcsetFindAll (TrimSpace srcset) = ?ms"
    using h srcsetFindAll_text[of es "end"] by simp
  have ne: "?ms \<noteq> []" using k by simp
  have w: "\<And>j. j < length es \<Longrightarrow> Sscanf_d (snd (?ms ! j)) = int (decimal (entryDigits (es ! j)))"
    using k by (simp add: Sscanf_d_def)
  from pick_first_widest[OF ne, of "TrimSpace src"]
  obtain i where i: "i < length es"
    and r: "fst (foldl pickStep (TrimSpace src, - 1) ?ms) = fst (?ms ! i)"
    and mx: "\<forall>j<length es. Sscanf_d (snd (?ms ! j)) \<le> Sscanf_d (snd (?ms ! i))"
    and fs: "\<forall>j<i. Sscanf_d (snd (?ms ! j)) < Sscanf_d (snd (?ms ! i))"
    by auto
  have "pickBestSrc src srcset = entryURL (es ! i)"
    using r i by (simp add: pickBestSrc_def all)
  moreover have "\<forall>j<length es. decimal (entryDigits (es ! j)) \<le> decimal (entryDigits (es ! i))"
  proof (intro allI impI)
    fix j assume j: "j < length es"
    from mx j have "Sscanf_d (snd (?ms ! j)) \<le> Sscanf_d (snd (?ms ! i))" by simp
    then show "decimal (entryDigits (es ! j)) \<le> decimal (entryDigits (es ! i))"
      unfolding w[OF j] w[OF i] by simp
  qed
  moreover have "\<forall>j<i. decimal (entryDigits (es ! j)) < decimal (entryDigits (es ! i))"
  proof (intro allI impI)
    fix j assume j: "j < i"
    then have jl: "j < length es" using i by simp
    from fs j have "Sscanf_d (snd (?ms ! j)) < Sscanf_d (snd (?ms ! i))" by simp
    then show "decimal (entryDigits (es ! j)) < decimal (entryDigits (es ! i))"
      unfolding w[OF jl] w[OF i] by simp
  qed
  ultimately show "\<exists>i<length es. pickBestSrc src srcset = entryURL (es ! i) \<and>
            (\<forall>j<length es. decimal (entryDigits (es ! j)) \<le> decimal (entryDigits (es ! i))) \<and>
            (\<forall>j<i. decimal (entryDigits (es ! j)) < decimal (entryDigits (es ! i)))"
    using i by blast
next
  have t: "TrimSpace ''a.jpg 300w, b.jpg 1024w, c.jpg 768w'' = ''a.jpg 300w, b.jpg 1024w, c.jpg 768w''"
    by (simp add: TrimSpace_def stripLeft.simps spaceRunes_def HasPrefix_def)
  have f: "srcsetFindAll ''a.jpg 300w, b.jpg 1024w, c.jpg 768w'' =
      [(''a.jpg'', ''300''), (''b.jpg'', ''1024''), (''c.jpg'', ''768'')]"
    by (simp add: srcsetFindAll.simps srcsetMatchAt_def reSpace_def urlChar_def isDigit_def Let_def)
  show "pickBestSrc src ''a.jpg 300w, b.jpg 1024w, c.jpg 768w'' = ''b.jpg''"
    unfolding pickBestSrc_def t f by (simp add: pickStep_def Sscanf_d_def decimal_def)
qed

theorem pickBestSrc_widest_witness:
  "list_all wellFormedEntry
     [([], ''a.jpg'', '' '', ''300''), ('', '', ''b.jpg'', '' '', ''1024''),
      ('' ,'', ''c.jpg'', [CHR 0x09], ''1024'')] \<and>
   list_all sepChar '','' \<and>
   TrimSpace (''  a.jpg 300w, b.jpg 1024w ,c.jpg'' @ [CHR 0x09] @ ''1024w, '') =
     srcsetText [([], ''a.jpg'', '' '', ''300''), ('', '', ''b.jpg'', '' '', ''1024''),
      ('' ,'', ''c.jpg'', [CHR 0x09], ''1024'')] '','' \<and>
   decimal ''300'' < 2 ^ 63 \<and> decimal ''1024'' < 2 ^ 63 \<and>
   srcsetFindAll (TrimSpace (''  a.jpg 300w, b.jpg 1024w ,c.jpg'' @ [CHR 0x09] @ ''1024w, '')) =
     [(''a.jpg'', ''300''), (''b.jpg'', ''1024''), (''c.jpg'', ''1024'')] \<and>
   pickBestSrc ''s.jpg'' (''  a.jpg 300w, b.jpg 1024w ,c.jpg'' @ [CHR 0x09] @ ''1024w, '') = ''b.jpg'' \<and>
   srcsetFindAll (TrimSpace ''b.jpg 2x'') = [] \<and>
   pickBestSrc ''s.jpg'' ''b.jpg 2x'' = ''s.jpg''"
proof -
  let ?es = "[([], ''a.jpg'', '' '', ''300''), ('', '', ''b.jpg'', '' '', ''1024''),
      ('' ,'', ''c.jpg'', [CHR 0x09], ''1024'')]"
  let ?s = "''  a.jpg 300w, b.jpg 1024w ,c.jpg'' @ [CHR 0x09] @ ''1024w, ''"
  let ?t = "''a.jpg 300w, b.jpg 1024w ,c.jpg'' @ [CHR 0x09] @ ''1024w,''"
  have wf: "list_all wellFormedEntry ?es"
    by (simp add: wellFormedEntry_def sepChar_def urlChar_def reSpace_def isDigit_def)
  have sp: "list_all sepChar '',''" by (simp add: sepChar_def)
  have tx: "srcsetText ?es '','' = ?t" by (simp add: srcsetText_def entryText_def)
  have tr: "TrimSpace ?s = ?t"
    by (simp add: TrimSpace_def stripLeft.simps spaceRunes_def HasPrefix_def)
  have d: "decimal ''300'' = 300" "decimal ''1024'' = 1024" by (simp_all add: decimal_def)
  have bd: "\<forall>e\<in>set ?es. decimal (entryDigits e) < 2 ^ 63" by (simp add: d entryDigits_def)
  have hyp: "list_all wellFormedEntry ?es \<and> list_all sepChar '','' \<and> TrimSpace ?s = srcsetText ?es '',''"
    using wf sp tr tx by simp
  have ne: "?es \<noteq> []" by simp
  note T = pickBestSrc_widest[of ?s "''s.jpg''" ?es "'',''"]
  have ms: "srcsetFindAll (TrimSpace ?s) = map (\<lambda>e. (entryURL e, entryDigits e)) ?es"
    using T hyp by blast
  then have ms': "srcsetFindAll (TrimSpace ?s) = [(''a.jpg'', ''300''), (''b.jpg'', ''1024''), (''c.jpg'', ''1024'')]"
    by (simp add: entryURL_def entryDigits_def)
  have ex: "\<exists>i<length ?es. pickBestSrc ''s.jpg'' ?s = entryURL (?es ! i) \<and>
            (\<forall>j<length ?es. decimal (entryDigits (?es ! j)) \<le> decimal (entryDigits (?es ! i))) \<and>
            (\<forall>j<i. decimal (entryDigits (?es ! j)) < decimal (entryDigits (?es ! i)))"
    using T hyp ne bd by blast
  have best: "pickBestSrc ''s.jpg'' ?s = ''b.jpg''"
    unfolding pickBestSrc_def ms' by (simp add: pickStep_def Sscanf_d_def d)
  have tr2: "TrimSpace ''b.jpg 2x'' = ''b.jpg 2x''"
    by (simp add: TrimSpace_def stripLeft.simps spaceRunes_def HasPrefix_def)
  have none: "srcsetFindAll (TrimSpace ''b.jpg 2x'') = []"
    unfolding tr2
    by (simp add: srcsetFindAll.simps srcsetMatchAt_def reSpace_def urlChar_def isDigit_def Let_def)
  have tr3: "TrimSpace ''s.jpg'' = ''s.jpg''"
    by (simp add: TrimSpace_def stripLeft.simps spaceRunes_def HasPrefix_def)
  have fb: "pickBestSrc ''s.jpg'' ''b.jpg 2x'' = ''s.jpg''"
    using pickBestSrc_widest[of "''b.jpg 2x''" "''s.jpg''" "[]" "[]"] none tr3 by simp
  have d63: "decimal ''300'' < 2 ^ 63" "decimal ''1024'' < 2 ^ 63" by (simp_all add: d)
  have ttx: "TrimSpace ?s = srcsetText ?es '',''" using tr tx by simp
  show ?thesis using wf sp ttx d63 ms' best none fb by blast
qed

text \<open>
  The claim as stated fails in three places. A width that does not fit the 64-bit \<open>int\<close>
  counts as 0, so an entry of width \<open>2^63\<close> loses against an entry of width 1. With no
  \<open>srcset\<close> the result is \<open>src\<close> without its surrounding white space, not \<open>src\<close>. And a
  comma inside a URL ends the entry before it: of the single entry
  \<open>https://x/w_300,h_400/a.jpg 300w\<close> only what follows the comma is returned.
\<close>

theorem pickBestSrc_widest_counterexample:
  "pickBestSrc '''' ''a.jpg 9223372036854775808w, b.jpg 1w'' = ''b.jpg'' \<and>
   srcsetFindAll ''a.jpg 9223372036854775808w, b.jpg 1w'' =
     [(''a.jpg'', ''9223372036854775808''), (''b.jpg'', ''1'')] \<and>
   decimal ''1'' < decimal ''9223372036854775808'' \<and>
   pickBestSrc '' a.jpg'' '''' = ''a.jpg'' \<and> ''a.jpg'' \<noteq> '' a.jpg'' \<and>
   pickBestSrc '''' ''https://x/w_300,h_400/a.jpg 300w'' = ''h_400/a.jpg'' \<and>
   ''h_400/a.jpg'' \<noteq> ''https://x/w_300,h_400/a.jpg''"
proof -
  have t: "TrimSpace ''a.jpg 9223372036854775808w, b.jpg 1w'' = ''a.jpg 9223372036854775808w, b.jpg 1w''"
    by (simp add: TrimSpace_def stripLeft.simps spaceRunes_def HasPrefix_def)
  have f: "srcsetFindAll ''a.jpg 9223372036854775808w, b.jpg 1w'' =
     [(''a.jpg'', ''9223372036854775808''), (''b.jpg'', ''1'')]"
    by (simp add: srcsetFindAll.simps srcsetMatchAt_def reSpace_def urlChar_def isDigit_def Let_def)
  have d: "decimal ''9223372036854775808'' = 9223372036854775808" "decimal ''1'' = 1"
    by (simp_all add: decimal_def)
  have a: "pickBestSrc '''' ''a.jpg 9223372036854775808w, b.jpg 1w'' = ''b.jpg''"
    unfolding pickBestSrc_def t f by (simp add: pickStep_def Sscanf_d_def d)
  have b: "pickBestSrc '' a.jpg'' '''' = ''a.jpg''"
    by (simp add: pickBestSrc_def TrimSpace_def stripLeft.simps spaceRunes_def HasPrefix_def
        srcsetFindAll.simps srcsetMatchAt_def)
  have t3: "TrimSpace ''https://x/w_300,h_400/a.jpg 300w'' = ''https://x/w_300,h_400/a.jpg 300w''"
    by (simp add: TrimSpace_def stripLeft.simps spaceRunes_def HasPrefix_def)
  have f3: "srcsetFindAll ''https://x/w_300,h_400/a.jpg 300w'' = [(''h_400/a.jpg'', ''300'')]"
    by (simp add: srcsetFindAll.simps srcsetMatchAt_def reSpace_def urlChar_def isDigit_def Let_def)
  have d3: "decimal ''300'' = 300" by (simp add: decimal_def)
  have c: "pickBestSrc '''' ''https://x/w_300,h_400/a.jpg 300w'' = ''h_400/a.jpg''"
    unfolding pickBestSrc_def t3 f3 by (simp add: pickStep_def Sscanf_d_def d3)
  show ?thesis using a f d b c by simp
qed

subsection \<open>Stripping the suffixes\<close>




















subsection \<open>Paths of plain URLs\<close>






















subsection \<open>Parsing and writing plain URLs\<close>





















subsection \<open>Canonical URLs\<close>









section \<open>Results on the document rewriter\<close>

subsection \<open>Attributes\<close>

lemma Attr_SetAttr_same: "Attr k (SetAttr k v as) = Some v"
  by (induction as) (auto simp: Attr_def)







subsection \<open>The image pass\<close>


lemma allNodes_self: "n \<in> set ns \<Longrightarrow> n \<in> set (allNodes ns)"
  by (cases n) (auto simp: allNodes_def intro!: bexI[of _ n])

lemma subtree_children:
  "m \<in> set (allNodes cs) \<Longrightarrow> m \<in> set (subtree (Element i tag as cs))"
  by (simp add: allNodes_def)








subsection \<open>The video pass\<close>

lemma subtree_setSourceSrc:
  "m \<in> set (subtree n) \<Longrightarrow> setSourceSrc r m \<in> set (subtree (setSourceSrc r n))"
proof (induction n)
  case (TextNode t)
  then show ?case by simp
next
  case (Element i tag as cs)
  show ?case
  proof (cases "m = Element i tag as cs")
    case True
    then show ?thesis by simp
  next
    case False
    then obtain d where "d \<in> set cs" "m \<in> set (subtree d)" using Element.prems by auto
    then have "setSourceSrc r m \<in> set (subtree (setSourceSrc r d))" by (rule Element.IH)
    then show ?thesis using \<open>d \<in> set cs\<close> by auto
  qed
qed

lemma allNodes_setSourceSrc:
  "m \<in> set (allNodes ns) \<Longrightarrow> setSourceSrc r m \<in> set (allNodes (map (setSourceSrc r) ns))"
  by (auto simp: allNodes_def intro: subtree_setSourceSrc)

lemma videoNode_element:
  "\<exists>as' cs'. fst (videoNode c (Element i tag as cs) dl) = Element i tag as' cs' \<and>
      (tag \<noteq> ''video'' \<longrightarrow> as' = as \<and> cs' = fst (videoNodes c cs dl))"
  by (auto split: prod.splits)

lemma videoNodes_Cons:
  "fst (videoNodes c (n # ns) dl) =
     fst (videoNode c n dl) # fst (videoNodes c ns (snd (videoNode c n dl)))"
  by (simp split: prod.splits)

text \<open>
  The video pass keeps every element that is neither a \<open>video\<close> nor a \<open>source\<close>, with its
  attributes.
\<close>

lemma videoNode_keeps:
  "(\<forall>i tag as cs. Element i tag as cs \<in> set (subtree n) \<and> tag \<noteq> ''video'' \<and> tag \<noteq> ''source'' \<longrightarrow>
      (\<exists>cs'. Element i tag as cs' \<in> set (subtree (fst (videoNode c n dl)))))"
  and videoNodes_keeps:
  "(\<forall>i tag as cs. Element i tag as cs \<in> set (allNodes ns) \<and> tag \<noteq> ''video'' \<and> tag \<noteq> ''source'' \<longrightarrow>
      (\<exists>cs'. Element i tag as cs' \<in> set (allNodes (fst (videoNodes c ns dl)))))"
proof (induction c n dl and c ns dl rule: videoNode_videoNodes.induct)
  case (1 c t dl)
  show ?case by simp
next
  case (2 c j tg bs ds dl)
  show ?case
  proof (intro allI impI)
    fix i tag as cs
    assume h: "Element i tag as cs \<in> set (subtree (Element j tg bs ds)) \<and> tag \<noteq> ''video'' \<and> tag \<noteq> ''source''"
    show "\<exists>cs'. Element i tag as cs' \<in> set (subtree (fst (videoNode c (Element j tg bs ds) dl)))"
    proof (cases "tg = ''video'' \<and> TrimSpace (videoSrc bs ds) \<noteq> []")
      case True
      let ?rel = "mediaRel ''videos'' (slug c) (videoSrc bs ds)"
      let ?dl = "Schedule dl (videoSrc bs ds) (mediaDest (staticDir c) ''videos'' (slug c) (videoSrc bs ds))"
      have ne: "Element i tag as cs \<noteq> Element j tg bs ds" using h True by auto
      then have "Element i tag as cs \<in> set (allNodes ds)" using h by (auto simp: allNodes_def)
      then have "setSourceSrc ?rel (Element i tag as cs) \<in> set (allNodes (map (setSourceSrc ?rel) ds))"
        by (rule allNodes_setSourceSrc)
      then have "Element i tag as (map (setSourceSrc ?rel) cs) \<in> set (allNodes (map (setSourceSrc ?rel) ds))"
        using h by simp
      with "2.IH"(1)[OF True] h obtain cs' where
        "Element i tag as cs' \<in> set (allNodes (fst (videoNodes c (map (setSourceSrc ?rel) ds) ?dl)))"
        by blast
      then obtain x where x: "x \<in> set (fst (videoNodes c (map (setSourceSrc ?rel) ds) ?dl))"
          "Element i tag as cs' \<in> set (subtree x)"
        by (auto simp: allNodes_def)
      have out: "fst (videoNode c (Element j tg bs ds) dl) =
          Element j ''video'' (SetAttr ''src'' ?rel bs) (fst (videoNodes c (map (setSourceSrc ?rel) ds) ?dl))"
        using True by (simp split: prod.splits)
      have "Element i tag as cs' \<in> set (subtree (fst (videoNode c (Element j tg bs ds) dl)))"
        unfolding out using x by auto
      then show ?thesis by blast
    next
      case False
      have out: "fst (videoNode c (Element j tg bs ds) dl) = Element j tg bs (fst (videoNodes c ds dl))"
        using False by (auto split: prod.splits)
      show ?thesis
      proof (cases "Element i tag as cs = Element j tg bs ds")
        case True
        then show ?thesis unfolding out by auto
      next
        case ne: False
        then have "Element i tag as cs \<in> set (allNodes ds)" using h by (auto simp: allNodes_def)
        with "2.IH"(2)[OF False] h obtain cs' where
          "Element i tag as cs' \<in> set (allNodes (fst (videoNodes c ds dl)))" by blast
        then show ?thesis unfolding out by (auto simp: allNodes_def)
      qed
    qed
  qed
next
  case (3 c dl)
  show ?case by (simp add: allNodes_def)
next
  case (4 c n ns dl)
  show ?case
  proof (intro allI impI)
    fix i tag as cs
    assume h: "Element i tag as cs \<in> set (allNodes (n # ns)) \<and> tag \<noteq> ''video'' \<and> tag \<noteq> ''source''"
    obtain n' dl1 where n': "videoNode c n dl = (n', dl1)" by (cases "videoNode c n dl")
    have out: "fst (videoNodes c (n # ns) dl) = n' # fst (videoNodes c ns dl1)"
      using n' by (simp split: prod.splits)
    from h consider "Element i tag as cs \<in> set (subtree n)" | "Element i tag as cs \<in> set (allNodes ns)"
      by (auto simp: allNodes_def)
    then show "\<exists>cs'. Element i tag as cs' \<in> set (allNodes (fst (videoNodes c (n # ns) dl)))"
    proof cases
      case 1
      with "4.IH"(1) h obtain cs' where "Element i tag as cs' \<in> set (subtree (fst (videoNode c n dl)))"
        by blast
      then show ?thesis unfolding out using n' by (auto simp: allNodes_def)
    next
      case 2
      with "4.IH"(2)[OF n'[symmetric]] h obtain cs' where
        "Element i tag as cs' \<in> set (allNodes (fst (videoNodes c ns dl1)))" by blast
      then show ?thesis unfolding out by (auto simp: allNodes_def)
    qed
  qed
qed

text \<open>The pass keeps the length of a list of nodes, and the elements other than videos in it.\<close>

lemma videoNodes_nth:
  "length (fst (videoNodes c ns dl)) = length ns \<and>
   (\<forall>k<length ns. \<forall>j tag as ds. ns ! k = Element j tag as ds \<and> tag \<noteq> ''video'' \<longrightarrow>
      (\<exists>ds'. fst (videoNodes c ns dl) ! k = Element j tag as ds'))"
proof (induction ns arbitrary: dl)
  case Nil
  show ?case by simp
next
  case (Cons n ns)
  let ?dl1 = "snd (videoNode c n dl)"
  note ih = Cons.IH[of ?dl1]
  have out: "fst (videoNodes c (n # ns) dl) = fst (videoNode c n dl) # fst (videoNodes c ns ?dl1)"
    by (rule videoNodes_Cons)
  have len: "length (fst (videoNodes c (n # ns) dl)) = length (n # ns)"
    unfolding out using ih by simp
  have "\<exists>ds'. fst (videoNodes c (n # ns) dl) ! k = Element j tag as ds'"
    if k: "k < length (n # ns)" and e: "(n # ns) ! k = Element j tag as ds" and t: "tag \<noteq> ''video''"
    for k j tag as ds
  proof (cases k)
    case 0
    then have "n = Element j tag as ds" using e by simp
    with videoNode_element[of c j tag as ds dl] t show ?thesis unfolding out using 0 by auto
  next
    case (Suc k')
    then have "k' < length ns" "ns ! k' = Element j tag as ds" using k e by simp_all
    with ih t obtain ds' where "fst (videoNodes c ns ?dl1) ! k' = Element j tag as ds'" by blast
    then show ?thesis unfolding out using Suc by simp
  qed
  with len show ?case by blast
qed




text \<open>What the callback of the video pass makes of a video with a source URL.\<close>

lemma videoNode_video:
  assumes "TrimSpace (videoSrc as cs) \<noteq> []"
  shows "\<exists>cs'. fst (videoNode c (Element i ''video'' as cs) dl) =
            Element i ''video'' (SetAttr ''src'' (mediaRel ''videos'' (slug c) (videoSrc as cs)) as) cs' \<and>
          length cs' = length cs \<and>
          (\<forall>k<length cs. isElement ''source'' (cs ! k) \<longrightarrow>
              isElement ''source'' (cs' ! k) \<and>
              Attr ''src'' (attrsOf (cs' ! k)) = Some (mediaRel ''videos'' (slug c) (videoSrc as cs)))"
proof -
  let ?rel = "mediaRel ''videos'' (slug c) (videoSrc as cs)"
  let ?dl = "Schedule dl (videoSrc as cs) (mediaDest (staticDir c) ''videos'' (slug c) (videoSrc as cs))"
  let ?cs1 = "map (setSourceSrc ?rel) cs"
  let ?cs' = "fst (videoNodes c ?cs1 ?dl)"
  have out: "fst (videoNode c (Element i ''video'' as cs) dl) = Element i ''video'' (SetAttr ''src'' ?rel as) ?cs'"
    using assms by (simp split: prod.splits)
  from videoNodes_nth[of c ?cs1 ?dl] have len: "length ?cs' = length cs"
    and nth: "\<And>k j tag bs ds'. k < length cs \<Longrightarrow> ?cs1 ! k = Element j tag bs ds' \<Longrightarrow> tag \<noteq> ''video'' \<Longrightarrow>
        \<exists>ds''. ?cs' ! k = Element j tag bs ds''"
    by auto
  have src: "isElement ''source'' (?cs' ! k) \<and> Attr ''src'' (attrsOf (?cs' ! k)) = Some ?rel"
    if k: "k < length cs" and s: "isElement ''source'' (cs ! k)" for k
  proof -
    from s obtain j' as' ds' where d: "cs ! k = Element j' ''source'' as' ds'"
      by (cases "cs ! k") (auto simp: isElement_def)
    then have "?cs1 ! k = Element j' ''source'' (SetAttr ''src'' ?rel as') (map (setSourceSrc ?rel) ds')"
      using k by simp
    from nth[OF k this] obtain ds'' where
      "?cs' ! k = Element j' ''source'' (SetAttr ''src'' ?rel as') ds''" by auto
    then show ?thesis by (simp add: isElement_def attrsOf_def Attr_SetAttr_same)
  qed
  show ?thesis unfolding out using len src by auto
qed

text \<open>The tree the rewriter leaves does not depend on the downloader it is given.\<close>

lemma imgNode_out:
  "tag \<noteq> ''img'' \<Longrightarrow>
   fst (imgNode c g ptag (Element i tag as cs) dl) =
     [Element i tag
        (if tag = ''a''
         then (case fst (snd (imgNodes c (g \<or> hasClass ''wp-block-gallery'' as) tag cs dl)) of
                 None \<Rightarrow> as | Some rel \<Rightarrow> SetAttr ''href'' rel as)
         else as)
        (fst (imgNodes c (g \<or> hasClass ''wp-block-gallery'' as) tag cs dl))]"
  and imgNode_out_rel:
  "tag \<noteq> ''img'' \<Longrightarrow>
   fst (snd (imgNode c g ptag (Element i tag as cs) dl)) =
     (if tag = ''a'' then None
      else fst (snd (imgNodes c (g \<or> hasClass ''wp-block-gallery'' as) tag cs dl)))"
  by (auto split: prod.splits)

lemma imgNodes_out:
  "fst (imgNodes c g ptag (n # ns) dl) =
     fst (imgNode c g ptag n dl) @ fst (imgNodes c g ptag ns (snd (snd (imgNode c g ptag n dl))))"
  and imgNodes_out_rel:
  "fst (snd (imgNodes c g ptag (n # ns) dl)) =
     (case fst (snd (imgNodes c g ptag ns (snd (snd (imgNode c g ptag n dl))))) of
        None \<Rightarrow> fst (snd (imgNode c g ptag n dl)) | Some rel \<Rightarrow> Some rel)"
  by (auto split: prod.splits option.splits)

lemma imgNode_indep:
  "fst (imgNode c g ptag n dl) = fst (imgNode c g ptag n dl') \<and>
   fst (snd (imgNode c g ptag n dl)) = fst (snd (imgNode c g ptag n dl'))"
  and imgNodes_indep:
  "fst (imgNodes c g ptag ns dl) = fst (imgNodes c g ptag ns dl') \<and>
   fst (snd (imgNodes c g ptag ns dl)) = fst (snd (imgNodes c g ptag ns dl'))"
proof (induction c g ptag n dl and c g ptag ns dl arbitrary: dl' and dl' rule: imgNode_imgNodes.induct)
  case (1 c g ptag t dl)
  show ?case by simp
next
  case (2 c g ptag i tag as cs dl)
  show ?case
  proof (cases "tag = ''img''")
    case True
    then show ?thesis by (simp add: onImg_def Let_def split: option.splits)
  next
    case False
    from "2.IH"[OF False, of dl'] show ?thesis
      unfolding imgNode_out[OF False] imgNode_out_rel[OF False] by auto
  qed
next
  case (3 c g ptag dl)
  show ?case by simp
next
  case (4 c g ptag n ns dl)
  obtain ns1 r1 dl1 where a: "imgNode c g ptag n dl = (ns1, r1, dl1)" by (metis prod_cases3)
  have e1: "fst (imgNode c g ptag n dl) = fst (imgNode c g ptag n dl')"
    "fst (snd (imgNode c g ptag n dl)) = fst (snd (imgNode c g ptag n dl'))"
    using "4.IH"(1)[of dl'] by simp_all
  have e2: "fst (imgNodes c g ptag ns (snd (snd (imgNode c g ptag n dl)))) =
        fst (imgNodes c g ptag ns (snd (snd (imgNode c g ptag n dl'))))"
    "fst (snd (imgNodes c g ptag ns (snd (snd (imgNode c g ptag n dl))))) =
        fst (snd (imgNodes c g ptag ns (snd (snd (imgNode c g ptag n dl')))))"
    using "4.IH"(2)[OF a[symmetric] refl, of "snd (snd (imgNode c g ptag n dl'))"] a by simp_all
  show ?case unfolding imgNodes_out imgNodes_out_rel e1 e2 by simp
qed

lemma videoNode_out:
  "fst (videoNode c (Element i tag as cs) dl) =
     (if tag = ''video'' \<and> TrimSpace (videoSrc as cs) \<noteq> [] then
        Element i tag (SetAttr ''src'' (mediaRel ''videos'' (slug c) (videoSrc as cs)) as)
          (fst (videoNodes c (map (setSourceSrc (mediaRel ''videos'' (slug c) (videoSrc as cs))) cs)
                  (Schedule dl (videoSrc as cs)
                     (mediaDest (staticDir c) ''videos'' (slug c) (videoSrc as cs)))))
      else Element i tag as (fst (videoNodes c cs dl)))"
  by (simp split: prod.splits)

lemma videoNode_indep: "fst (videoNode c n dl) = fst (videoNode c n dl')"
  and videoNodes_indep: "fst (videoNodes c ns dl) = fst (videoNodes c ns dl')"
proof (induction c n dl and c ns dl arbitrary: dl' and dl' rule: videoNode_videoNodes.induct)
  case (1 c t dl)
  show ?case by simp
next
  case (2 c i tag as cs dl)
  show ?case
  proof (cases "tag = ''video'' \<and> TrimSpace (videoSrc as cs) \<noteq> []")
    case True
    from "2.IH"(1)[OF True,
        of "Schedule dl' (videoSrc as cs) (mediaDest (staticDir c) ''videos'' (slug c) (videoSrc as cs))"]
    show ?thesis unfolding videoNode_out using True by simp
  next
    case False
    from "2.IH"(2)[OF False, of dl'] show ?thesis unfolding videoNode_out using False by auto
  qed
next
  case (3 c dl)
  show ?case by simp
next
  case (4 c n ns dl)
  obtain n' dl1 where a: "videoNode c n dl = (n', dl1)" by (cases "videoNode c n dl")
  have e1: "fst (videoNode c n dl) = fst (videoNode c n dl')" using "4.IH"(1)[of dl'] .
  have e2: "fst (videoNodes c ns (snd (videoNode c n dl))) = fst (videoNodes c ns (snd (videoNode c n dl')))"
    using "4.IH"(2)[OF a[symmetric], of "snd (videoNode c n dl')"] a by simp
  show ?case unfolding videoNodes_Cons e1 e2 by simp
qed



subsection \<open>The whole document\<close>





subsection \<open>What the rewritten document holds\<close>





text \<open>The video pass changes \<open>video\<close> and \<open>source\<close> elements only.\<close>

lemma subtree_setSourceSrc_map: "subtree (setSourceSrc r n) = map (setSourceSrc r) (subtree n)"
proof (induction n)
  case (TextNode t)
  show ?case by simp
next
  case (Element i tag as cs)
  have "concat (map (\<lambda>x. subtree (setSourceSrc r x)) cs) = map (setSourceSrc r) (concat (map subtree cs))"
    using Element.IH by (induction cs) auto
  then show ?case by (simp add: comp_def)
qed

lemma allNodes_setSourceSrc_map:
  "allNodes (map (setSourceSrc r) ns) = map (setSourceSrc r) (allNodes ns)"
  by (induction ns) (simp_all add: allNodes_def subtree_setSourceSrc_map)

lemma setSourceSrc_back:
  assumes "Element i tag as cs' \<in> set (allNodes (map (setSourceSrc r) ns))" and "tag \<noteq> ''source''"
  shows "\<exists>cs. Element i tag as cs \<in> set (allNodes ns)"
proof -
  from assms(1) obtain m where m: "m \<in> set (allNodes ns)" and e: "setSourceSrc r m = Element i tag as cs'"
    unfolding allNodes_setSourceSrc_map by auto
  from e assms(2) obtain cs where "m = Element i tag as cs" by (cases m) auto
  with m show ?thesis by blast
qed

lemma videoNode_back:
  "(\<forall>i tag as cs'. Element i tag as cs' \<in> set (subtree (fst (videoNode c n dl))) \<and>
        tag \<noteq> ''video'' \<and> tag \<noteq> ''source'' \<longrightarrow>
      (\<exists>cs. Element i tag as cs \<in> set (subtree n)))"
  and videoNodes_back:
  "(\<forall>i tag as cs'. Element i tag as cs' \<in> set (allNodes (fst (videoNodes c ns dl))) \<and>
        tag \<noteq> ''video'' \<and> tag \<noteq> ''source'' \<longrightarrow>
      (\<exists>cs. Element i tag as cs \<in> set (allNodes ns)))"
proof (induction c n dl and c ns dl rule: videoNode_videoNodes.induct)
  case (1 c t dl)
  show ?case by simp
next
  case (2 c j tg bs ds dl)
  show ?case
  proof (intro allI impI)
    fix i tag as cs'
    assume h: "Element i tag as cs' \<in> set (subtree (fst (videoNode c (Element j tg bs ds) dl))) \<and>
        tag \<noteq> ''video'' \<and> tag \<noteq> ''source''"
    show "\<exists>cs. Element i tag as cs \<in> set (subtree (Element j tg bs ds))"
    proof (cases "tg = ''video'' \<and> TrimSpace (videoSrc bs ds) \<noteq> []")
      case True
      let ?rel = "mediaRel ''videos'' (slug c) (videoSrc bs ds)"
      let ?dl = "Schedule dl (videoSrc bs ds) (mediaDest (staticDir c) ''videos'' (slug c) (videoSrc bs ds))"
      have out: "fst (videoNode c (Element j tg bs ds) dl) =
          Element j ''video'' (SetAttr ''src'' ?rel bs) (fst (videoNodes c (map (setSourceSrc ?rel) ds) ?dl))"
        using True by (simp split: prod.splits)
      from h have "Element i tag as cs' \<in> set (allNodes (fst (videoNodes c (map (setSourceSrc ?rel) ds) ?dl)))"
        unfolding out by (auto simp: allNodes_def)
      with "2.IH"(1)[OF True] h obtain cs1 where
        "Element i tag as cs1 \<in> set (allNodes (map (setSourceSrc ?rel) ds))" by blast
      from setSourceSrc_back[OF this] h obtain cs where "Element i tag as cs \<in> set (allNodes ds)"
        by blast
      then show ?thesis by (auto simp: allNodes_def)
    next
      case False
      have out: "fst (videoNode c (Element j tg bs ds) dl) = Element j tg bs (fst (videoNodes c ds dl))"
        using False by (auto split: prod.splits)
      from h consider "i = j \<and> tag = tg \<and> as = bs"
        | "Element i tag as cs' \<in> set (allNodes (fst (videoNodes c ds dl)))"
        unfolding out by (auto simp: allNodes_def)
      then show ?thesis
      proof cases
        case 1
        then show ?thesis by auto
      next
        case 2
        with "2.IH"(2)[OF False] h obtain cs where "Element i tag as cs \<in> set (allNodes ds)" by blast
        then show ?thesis by (auto simp: allNodes_def)
      qed
    qed
  qed
next
  case (3 c dl)
  show ?case by (simp add: allNodes_def)
next
  case (4 c n ns dl)
  show ?case
  proof (intro allI impI)
    fix i tag as cs'
    assume h: "Element i tag as cs' \<in> set (allNodes (fst (videoNodes c (n # ns) dl))) \<and>
        tag \<noteq> ''video'' \<and> tag \<noteq> ''source''"
    obtain n' dl1 where n': "videoNode c n dl = (n', dl1)" by (cases "videoNode c n dl")
    have out: "fst (videoNodes c (n # ns) dl) = n' # fst (videoNodes c ns dl1)"
      using n' by (simp split: prod.splits)
    from h consider "Element i tag as cs' \<in> set (subtree (fst (videoNode c n dl)))"
      | "Element i tag as cs' \<in> set (allNodes (fst (videoNodes c ns dl1)))"
      unfolding out using n' by (auto simp: allNodes_def)
    then show "\<exists>cs. Element i tag as cs \<in> set (allNodes (n # ns))"
    proof cases
      case 1
      with "4.IH"(1) h obtain cs where "Element i tag as cs \<in> set (subtree n)" by blast
      then show ?thesis by (auto simp: allNodes_def)
    next
      case 2
      with "4.IH"(2)[OF n'[symmetric]] h obtain cs where "Element i tag as cs \<in> set (allNodes ns)" by blast
      then show ?thesis by (auto simp: allNodes_def)
    qed
  qed
qed












subsection \<open>Evaluation on given documents\<close>















section \<open>Results on the content transformer\<close>

subsection \<open>Gallery blocks\<close>

lemma concat_map_if:
  "concat (map (\<lambda>x. if P x then f x else []) xs) = concat (map f (filter P xs))"
  by (induction xs) simp_all

text \<open>
  C9, as amended. For a top-level element whose class attribute has the word
  \<open>wp-block-gallery\<close>, the transformer appends, for every \<open>img\<close> element below it that has a
  non-empty \<open>src\<close>, in document order, the reference \<open>![alt](src)\<close> followed by a blank line,
  and nothing else: the generic conversion is not used. The text \<open>alt\<close> is the trimmed \<open>alt\<close>
  attribute, or the base name of \<open>src\<close> when that is empty.
\<close>

theorem gallery_block_images:
  "hasClass ''wp-block-gallery'' as \<longrightarrow>
     emitNode (Element i tag as cs) =
       concat (map (\<lambda>img. ''!['' @ (if TrimSpace (AttrOr ''alt'' (attrsOf img)) = []
                                      then path_Base (AttrOr ''src'' (attrsOf img))
                                      else TrimSpace (AttrOr ''alt'' (attrsOf img)))
                           @ '']('' @ AttrOr ''src'' (attrsOf img) @ '')'' @ [CHR 0x0A, CHR 0x0A])
                 (filter (\<lambda>img. AttrOr ''src'' (attrsOf img) \<noteq> []) (Find ''img'' cs)))"
  by (simp add: emitGallery_def concat_map_if imageRef_def altOf_def)

theorem gallery_block_images_witness:
  "hasClass ''wp-block-gallery'' [(''class'', ''wp-block-gallery columns-2'')] \<and>
   emitNode (Element 1 ''figure'' [(''class'', ''wp-block-gallery columns-2'')]
      [Element 2 ''figure'' [] [Element 3 ''img'' [(''src'', ''/galleries/s/a.jpg''), (''alt'', ''A'')] []],
       Element 4 ''img'' [(''src'', ''/galleries/s/b.jpg'')] []]) =
     ''![A](/galleries/s/a.jpg)'' @ [CHR 0x0A, CHR 0x0A] @ ''![b.jpg](/galleries/s/b.jpg)'' @ [CHR 0x0A, CHR 0x0A]"
proof -
  let ?as = "[(''class'', ''wp-block-gallery columns-2'')]"
  let ?cs = "[Element 2 ''figure'' [] [Element 3 ''img'' [(''src'', ''/galleries/s/a.jpg''), (''alt'', ''A'')] []],
       Element 4 ''img'' [(''src'', ''/galleries/s/b.jpg'')] []]"
  have h: "hasClass ''wp-block-gallery'' ?as" by (simp add: dom_eval)
  have f: "Find ''img'' ?cs = [Element 3 ''img'' [(''src'', ''/galleries/s/a.jpg''), (''alt'', ''A'')] [],
       Element 4 ''img'' [(''src'', ''/galleries/s/b.jpg'')] []]"
    by (simp add: dom_eval)
  have t1: "TrimSpace ''A'' = ''A''" by (simp add: trim_eval)
  have t2: "TrimSpace [] = []" by (simp add: trim_eval)
  have b: "path_Base ''/galleries/s/b.jpg'' = ''b.jpg''"
    by (simp add: path_Base_def stripTrailingSlashes_def afterLastSlash_def)
  from gallery_block_images[of ?as 1 "''figure''" ?cs] h
  have "emitNode (Element 1 ''figure'' ?as ?cs) =
       concat (map (\<lambda>img. ''!['' @ (if TrimSpace (AttrOr ''alt'' (attrsOf img)) = []
                                      then path_Base (AttrOr ''src'' (attrsOf img))
                                      else TrimSpace (AttrOr ''alt'' (attrsOf img)))
                           @ '']('' @ AttrOr ''src'' (attrsOf img) @ '')'' @ [CHR 0x0A, CHR 0x0A])
                 (filter (\<lambda>img. AttrOr ''src'' (attrsOf img) \<noteq> []) (Find ''img'' ?cs)))"
    by blast
  then show ?thesis using h unfolding f by (simp add: attrsOf_def AttrOr_def Attr_def t1 t2 b)
qed

text \<open>
  The claim as stated fails for an image without \<open>src\<close>: the gallery below contains an
  image, and nothing is written for it.
\<close>

theorem gallery_block_images_counterexample:
  "hasClass ''wp-block-gallery'' [(''class'', ''wp-block-gallery'')] \<and>
   Find ''img'' [Element 2 ''img'' [(''alt'', ''x'')] []] = [Element 2 ''img'' [(''alt'', ''x'')] []] \<and>
   emitNode (Element 1 ''figure'' [(''class'', ''wp-block-gallery'')]
      [Element 2 ''img'' [(''alt'', ''x'')] []]) = []"
  by (simp add: dom_eval emitGallery_def)

subsection \<open>Order of the output\<close>

lemma foldl_append_concat: "foldl (\<lambda>b n. b @ f n) acc ns = acc @ concat (map f ns)"
  by (induction ns arbitrary: acc) simp_all

lemma stripLeft_Nil: "stripLeft rs [] = []"
proof -
  have "find (\<lambda>r. r \<noteq> [] \<and> HasPrefix [] r) rs = None"
    by (induction rs) (auto simp: HasPrefix_def)
  then show ?thesis by (subst stripLeft.simps) simp
qed

lemma stripLeft_newline: "stripLeft spaceRunes (CHR 0x0A # s) = stripLeft spaceRunes s"
  by (subst stripLeft.simps) (simp add: spaceRunes_def HasPrefix_def)

lemma stripLeft_newlines: "set s \<subseteq> {CHR 0x0A} \<Longrightarrow> stripLeft spaceRunes s = []"
proof (induction s)
  case Nil
  show ?case by (rule stripLeft_Nil)
next
  case (Cons c s)
  then have c: "c = CHR 0x0A" and s: "set s \<subseteq> {CHR 0x0A}" by auto
  show ?case unfolding c stripLeft_newline using Cons.IH[OF s] .
qed

lemma TrimSpace_newlines: "set s \<subseteq> {CHR 0x0A} \<Longrightarrow> TrimSpace s = []"
  by (simp add: TrimSpace_def stripLeft_newlines stripLeft_Nil)

lemma TrimSpace_empty: "TrimSpace [] = []"
  by (simp add: TrimSpace_newlines)

lemma ConvertString_blank: "TrimSpace (selecToMD n) = [] \<Longrightarrow> ConvertString n = []"
  by (simp add: ConvertString_def TrimTrailingSpaces_def TrimRightSpace_def stripLeft_Nil)

text \<open>
  Without an \<open>img\<close> element below it, the converter writes for a node nothing but the
  newlines of its \<open>br\<close> elements: text nodes have no rule of their own, and the rule for
  \<open>p\<close> writes nothing for a content that is blank.
\<close>

lemma selecToMD_newlines:
  "list_all (\<lambda>m. \<not> isElement ''img'' m) (subtree n) \<Longrightarrow> set (selecToMD n) \<subseteq> {CHR 0x0A}"
proof (induction n rule: selecToMD.induct)
  case (1 t)
  show ?case by simp
next
  case (2 i tag as cs)
  have ni: "tag \<noteq> ''img''" using "2.prems" by (simp add: isElement_def)
  have sub: "\<And>x. x \<in> set cs \<Longrightarrow> list_all (\<lambda>m. \<not> isElement ''img'' m) (subtree x)"
    using "2.prems" by (auto simp: list_all_iff)
  have kids: "set (concat (map selecToMD cs)) \<subseteq> {CHR 0x0A}"
  proof -
    have "\<And>x. x \<in> set cs \<Longrightarrow> set (selecToMD x) \<subseteq> {CHR 0x0A}"
    proof -
      fix x assume x: "x \<in> set cs"
      show "set (selecToMD x) \<subseteq> {CHR 0x0A}"
      proof (cases "tag = ''p''")
        case True
        then show ?thesis using "2.IH"(1)[OF True x sub[OF x]] by simp
      next
        case np: False
        show ?thesis
        proof (cases "tag = ''br''")
          case True
          then show ?thesis using "2.IH"(2)[OF np True x sub[OF x]] by simp
        next
          case nb: False
          show ?thesis using "2.IH"(4)[OF np nb ni x sub[OF x]] by simp
        qed
      qed
    qed
    then show ?thesis by auto
  qed
  show ?case
  proof (cases "tag = ''p''")
    case True
    then show ?thesis by (simp add: ruleP_def TrimSpace_newlines[OF kids])
  next
    case np: False
    show ?thesis
    proof (cases "tag = ''br''")
      case True
      then show ?thesis by (simp add: ruleBr_def)
    next
      case False
      then show ?thesis using np ni kids by simp
    qed
  qed
qed

lemma emitNode_mediaFree:
  assumes "mediaFree n"
  shows "emitNode n = (if trimmedText n = [] then [] else trimmedText n @ [CHR 0x0A, CHR 0x0A])"
proof (cases n)
  case (TextNode t)
  then show ?thesis by (simp add: trimmedText_def)
next
  case (Element i tag as cs)
  have a: "list_all (\<lambda>m. \<not> isElement ''img'' m) (subtree n)"
    and b: "\<not> hasClass ''wp-block-gallery'' as" "\<not> hasClass ''wp-block-video'' as" "tag \<noteq> ''video''"
    using assms unfolding mediaFree_def Element by simp_all
  have "TrimSpace (selecToMD n) = []" by (rule TrimSpace_newlines[OF selecToMD_newlines[OF a]])
  then have "ConvertString n = []" by (rule ConvertString_blank)
  then have "emitGeneric n =
      (if trimmedText n = [] then [] else trimmedText n @ [CHR 0x0A, CHR 0x0A])"
    by (simp add: emitGeneric_def TrimSpace_empty trimmedText_def)
  then show ?thesis using b unfolding Element by simp
qed

lemma concat_paragraphs:
  "concat (map (\<lambda>n. if f n = [] then [] else f n @ e) ns) =
   concat (map (\<lambda>t. t @ e) (filter (\<lambda>t. t \<noteq> []) (map f ns)))"
  by (induction ns) simp_all

text \<open>
  C8. For a document whose top-level nodes are without media (no \<open>img\<close> element in them,
  none of them a gallery block, a video block or a \<open>video\<close> element), the Markdown is made
  of the trimmed texts of the top-level nodes, text nodes and elements alike, in the
  order of the document: the nodes whose text is white space only are left out, each
  other trimmed text is followed by a blank line, and the whole is trimmed at both ends.
\<close>

theorem toMarkdown_order:
  assumes "list_all mediaFree (contentRoots doc)"
  shows "toMarkdownPreserveOrder doc =
     TrimSpace (concat (map (\<lambda>t. t @ [CHR 0x0A, CHR 0x0A])
        (filter (\<lambda>t. t \<noteq> []) (map trimmedText (contentRoots doc)))))"
proof -
  have "map emitNode (contentRoots doc) =
      map (\<lambda>n. if trimmedText n = [] then [] else trimmedText n @ [CHR 0x0A, CHR 0x0A]) (contentRoots doc)"
    using assms by (intro map_cong refl emitNode_mediaFree) (simp add: list_all_iff)
  then have "concat (map emitNode (contentRoots doc)) =
      concat (map (\<lambda>t. t @ [CHR 0x0A, CHR 0x0A])
        (filter (\<lambda>t. t \<noteq> []) (map trimmedText (contentRoots doc))))"
    by (simp only: concat_paragraphs)
  then show ?thesis
    by (simp only: toMarkdownPreserveOrder_def foldl_append_concat append_Nil)
qed

theorem toMarkdown_order_witness:
  "list_all mediaFree (contentRoots [Element 1 ''html'' [] [Element 2 ''head'' [] [], Element 3 ''body'' []
       [TextNode '' '', Element 4 ''p'' [] [TextNode ''One''], TextNode '' two '',
        Element 5 ''div'' [] [Element 6 ''b'' [] [TextNode ''Th''], Element 7 ''br'' [] [],
           TextNode ''ree '']]]]) \<and>
   toMarkdownPreserveOrder [Element 1 ''html'' [] [Element 2 ''head'' [] [], Element 3 ''body'' []
       [TextNode '' '', Element 4 ''p'' [] [TextNode ''One''], TextNode '' two '',
        Element 5 ''div'' [] [Element 6 ''b'' [] [TextNode ''Th''], Element 7 ''br'' [] [],
           TextNode ''ree '']]]] =
     ''One'' @ [CHR 0x0A, CHR 0x0A] @ ''two'' @ [CHR 0x0A, CHR 0x0A] @ ''Three''"
proof -
  let ?p = "Element 4 ''p'' [] [TextNode ''One'']"
  let ?d = "Element 5 ''div'' [] [Element 6 ''b'' [] [TextNode ''Th''], Element 7 ''br'' [] [],
           TextNode ''ree '']"
  let ?roots = "[TextNode '' '', ?p, TextNode '' two '', ?d]"
  let ?doc = "[Element 1 ''html'' [] [Element 2 ''head'' [] [], Element 3 ''body'' [] ?roots]]"
  have r: "contentRoots ?doc = ?roots" by (simp add: contentRoots_def dom_eval)
  have h: "list_all mediaFree ?roots" by (simp add: mediaFree_def isElement_def hasClass_def)
  have ts: "trimmedText (TextNode '' '') = []" by (simp add: trimmedText_def trim_eval)
  have t1: "trimmedText ?p = ''One''" by (simp add: trimmedText_def trim_eval)
  have t2: "trimmedText (TextNode '' two '') = ''two''" by (simp add: trimmedText_def trim_eval)
  have t3: "trimmedText ?d = ''Three''" by (simp add: trimmedText_def trim_eval)
  have tt: "TrimSpace (''One'' @ [CHR 0x0A, CHR 0x0A] @ ''two'' @ [CHR 0x0A, CHR 0x0A] @ ''Three'' @ [CHR 0x0A, CHR 0x0A])
     = ''One'' @ [CHR 0x0A, CHR 0x0A] @ ''two'' @ [CHR 0x0A, CHR 0x0A] @ ''Three''"
    by (simp add: trim_eval)
  have "toMarkdownPreserveOrder ?doc =
     TrimSpace (concat (map (\<lambda>t. t @ [CHR 0x0A, CHR 0x0A])
        (filter (\<lambda>t. t \<noteq> []) (map trimmedText ?roots))))"
    using toMarkdown_order[of ?doc] h unfolding r by blast
  then have m: "toMarkdownPreserveOrder ?doc =
     ''One'' @ [CHR 0x0A, CHR 0x0A] @ ''two'' @ [CHR 0x0A, CHR 0x0A] @ ''Three''"
    unfolding list.map ts t1 t2 t3 using tt by simp
  show ?thesis unfolding r using h m by blast
qed

section \<open>End to end\<close>

lemma e2e_pick:
  "pickBestSrc ''https://x/a-300x200.jpg''
     ''https://x/a-150x100.jpg 150w, https://x/a-300x200.jpg 300w'' = ''https://x/a-300x200.jpg''"
proof -
  have t: "TrimSpace ''https://x/a-150x100.jpg 150w, https://x/a-300x200.jpg 300w'' =
      ''https://x/a-150x100.jpg 150w, https://x/a-300x200.jpg 300w''"
    by (simp add: trim_eval)
  have f: "srcsetFindAll ''https://x/a-150x100.jpg 150w, https://x/a-300x200.jpg 300w'' =
      [(''https://x/a-150x100.jpg'', ''150''), (''https://x/a-300x200.jpg'', ''300'')]"
    by (simp add: srcsetFindAll.simps srcsetMatchAt_def reSpace_def urlChar_def isDigit_def Let_def)
  show ?thesis unfolding pickBestSrc_def t f by (simp add: pickStep_def Sscanf_d_def decimal_def)
qed

lemma e2e_parse:
  "url_Parse ''https://x/a-300x200.jpg'' =
     Inr (emptyURL\<lparr>Scheme := ''https'', Host := ''x'', Path := ''/a-300x200.jpg''\<rparr>)"
  by (simp add: url_eval)

lemma e2e_strip: "stripWPSuffixes ''a-300x200'' = ''a''"
  by (simp add: strip_eval)

lemma e2e_orig: "toOriginalURL ''https://x/a-300x200.jpg'' = ''https://x/a.jpg''"
proof -
  have b: "path_Base ''/a-300x200.jpg'' = ''a-300x200.jpg''" by (simp add: path_eval)
  have d: "path_Dir ''/a-300x200.jpg'' = ''/''" by (simp add: path_eval)
  have x: "path_Ext ''a-300x200.jpg'' = ''.jpg''" by (simp add: path_eval)
  have n: "TrimSuffix ''a-300x200.jpg'' ''.jpg'' = ''a-300x200''" by (simp add: TrimSuffix_def HasSuffix_def)
  have j: "path_Join [''/'', ''a.jpg''] = ''/a.jpg''" by (simp add: path_eval)
  have s: "URL_String (emptyURL\<lparr>Scheme := ''https'', Host := ''x'', Path := ''/a.jpg''\<rparr>) = ''https://x/a.jpg''"
    by (simp add: URL_String_def EscapedPath_def emptyURL_def escape_def shouldEscape_def
        isAlpha_def isDigit_def Cut_def Let_def)
  show ?thesis
    unfolding toOriginalURL_def e2e_parse
    by (simp add: Let_def emptyURL_def b d x n e2e_strip j s[unfolded emptyURL_def, simplified])
qed

lemma e2e_name: "filenameFromURL ''https://x/a.jpg'' = ''a.jpg''"
proof -
  have p: "url_Parse ''https://x/a.jpg'' = Inr (emptyURL\<lparr>Scheme := ''https'', Host := ''x'', Path := ''/a.jpg''\<rparr>)"
    by (simp add: url_eval)
  have b: "path_Base ''/a.jpg'' = ''a.jpg''" by (simp add: path_eval)
  show ?thesis using filenameFromURL_parsed[OF p] b by (simp add: emptyURL_def)
qed

lemma e2e_dest:
  "mediaDest ''static'' ''images'' ''2024-01-test'' ''https://x/a.jpg'' = ''static/images/2024-01-test/a.jpg''"
  by (simp add: mediaDest_def e2e_name path_eval)

lemma e2e_rel:
  "mediaRel ''images'' ''2024-01-test'' ''https://x/a.jpg'' = ''/images/2024-01-test/a.jpg''"
  by (simp add: mediaRel_def e2e_name path_eval)

lemma e2e_not_emoji:
  "\<not> isEmoji [(''src'', ''https://x/a-300x200.jpg''),
       (''srcset'', ''https://x/a-150x100.jpg 150w, https://x/a-300x200.jpg 300w'')]"
  by (simp add: isEmoji_def AttrOr_def Attr_def HasPrefix_def)

lemma e2e_onImg:
  "onImg \<lparr>staticDir = ''static'', slug = ''2024-01-test'', parseFragment = P\<rparr> False ''body'' 5
     [(''src'', ''https://x/a-300x200.jpg''),
      (''srcset'', ''https://x/a-150x100.jpg 150w, https://x/a-300x200.jpg 300w'')] [] dl =
   ([Element 5 ''img'' [(''src'', ''/images/2024-01-test/a.jpg'')] []],
    Some ''/images/2024-01-test/a.jpg'',
    Schedule dl ''https://x/a.jpg'' ''static/images/2024-01-test/a.jpg'')"
proof -
  have a: "AttrOr ''src'' [(''src'', ''https://x/a-300x200.jpg''),
      (''srcset'', ''https://x/a-150x100.jpg 150w, https://x/a-300x200.jpg 300w'')] = ''https://x/a-300x200.jpg''"
    "AttrOr ''srcset'' [(''src'', ''https://x/a-300x200.jpg''),
      (''srcset'', ''https://x/a-150x100.jpg 150w, https://x/a-300x200.jpg 300w'')] =
      ''https://x/a-150x100.jpg 150w, https://x/a-300x200.jpg 300w''"
    by (simp_all add: AttrOr_def Attr_def)
  show ?thesis
    unfolding onImg_def a e2e_pick
    by (simp add: e2e_not_emoji Let_def e2e_orig e2e_dest e2e_rel mediaArea_def)
qed

text \<open>
  C7. The fragment \<open><p>Hello</p><img src="https://x/a-300x200.jpg"
  srcset="https://x/a-150x100.jpg 150w, https://x/a-300x200.jpg 300w"><p>World</p>\<close> is
  given by the document the HTML parser builds for it. With the slug \<open>2024-01-test\<close> and
  the static directory \<open>static\<close>, rewriting it and converting the result gives the
  Markdown \<open>Hello\<close>, a blank line, \<open>![a.jpg](/images/2024-01-test/a.jpg)\<close>, a newline and
  \<open>World\<close>; and a new downloader has started exactly one download, of
  \<open>https://x/a.jpg\<close>. The rewriter returns three elements here, a paragraph, an image and
  a paragraph; the converter is given the document the parser builds from their
  rendering, which holds these three elements in its \<open>body\<close>.
\<close>

theorem end_to_end:
  "toMarkdownPreserveOrder [Element 0 ''html'' [] [Element 0 ''head'' [] [], Element 0 ''body'' []
     (fst (rewriteAndDownloadImages
       \<lparr>staticDir = ''static'', slug = ''2024-01-test'', parseFragment = P\<rparr>
       [Element 7 ''html'' [] [Element 2 ''head'' [] [], Element 3 ''body'' []
          [Element 4 ''p'' [] [TextNode ''Hello''],
           Element 5 ''img'' [(''src'', ''https://x/a-300x200.jpg''),
              (''srcset'', ''https://x/a-150x100.jpg 150w, https://x/a-300x200.jpg 300w'')] [],
           Element 6 ''p'' [] [TextNode ''World'']]]]
       (newDownloader 6)))]] =
     ''Hello'' @ [CHR 0x0A, CHR 0x0A] @ ''![a.jpg](/images/2024-01-test/a.jpg)'' @ [CHR 0x0A] @ ''World'' \<and>
   started (snd (rewriteAndDownloadImages
       \<lparr>staticDir = ''static'', slug = ''2024-01-test'', parseFragment = P\<rparr>
       [Element 7 ''html'' [] [Element 2 ''head'' [] [], Element 3 ''body'' []
          [Element 4 ''p'' [] [TextNode ''Hello''],
           Element 5 ''img'' [(''src'', ''https://x/a-300x200.jpg''),
              (''srcset'', ''https://x/a-150x100.jpg 150w, https://x/a-300x200.jpg 300w'')] [],
           Element 6 ''p'' [] [TextNode ''World'']]]]
       (newDownloader 6))) =
     [(''https://x/a.jpg'', ''static/images/2024-01-test/a.jpg'')]"
proof -
  let ?c = "\<lparr>staticDir = ''static'', slug = ''2024-01-test'', parseFragment = P\<rparr>"
  let ?img = "Element 5 ''img'' [(''src'', ''https://x/a-300x200.jpg''),
              (''srcset'', ''https://x/a-150x100.jpg 150w, https://x/a-300x200.jpg 300w'')] []"
  let ?img' = "Element 5 ''img'' [(''src'', ''/images/2024-01-test/a.jpg'')] []"
  let ?p1 = "Element 4 ''p'' [] [TextNode ''Hello'']"
  let ?p2 = "Element 6 ''p'' [] [TextNode ''World'']"
  let ?doc = "[Element 7 ''html'' [] [Element 2 ''head'' [] [], Element 3 ''body'' [] [?p1, ?img, ?p2]]]"
  let ?dl = "Schedule (newDownloader 6) ''https://x/a.jpg'' ''static/images/2024-01-test/a.jpg''"
  have g: "\<not> hasClass ''wp-block-gallery'' []" by (simp add: hasClass_def)
  have pass1: "imgNodes ?c False [] ?doc (newDownloader 6) =
      ([Element 7 ''html'' [] [Element 2 ''head'' [] [], Element 3 ''body'' [] [?p1, ?img', ?p2]]],
       Some ''/images/2024-01-test/a.jpg'', ?dl)"
    by (simp add: g e2e_onImg)
  have t0: "TrimSpace [] = []" by (simp add: trim_eval)
  have v: "\<And>as cs. videoSrc [] [TextNode ''Hello''] = []" "videoSrc [] [TextNode ''World''] = []"
    by (simp_all add: videoSrc_def AttrOr_def Attr_def t0 Find_def isElement_def)
  have pass2: "videoNodes ?c [Element 7 ''html'' [] [Element 2 ''head'' [] [], Element 3 ''body'' [] [?p1, ?img', ?p2]]] ?dl =
      ([Element 7 ''html'' [] [Element 2 ''head'' [] [], Element 3 ''body'' [] [?p1, ?img', ?p2]]], ?dl)"
    by simp
  have roots: "contentRoots [Element 7 ''html'' [] [Element 2 ''head'' [] [], Element 3 ''body'' [] [?p1, ?img', ?p2]]]
      = [?p1, ?img', ?p2]"
    by (simp add: contentRoots_def dom_eval)
  have rw: "rewriteAndDownloadImages ?c ?doc (newDownloader 6) = ([?p1, ?img', ?p2], ?dl)"
    unfolding rewriteAndDownloadImages_def rewriteDocument_def pass1 by (simp add: pass2 roots)
  let ?again = "[Element 0 ''html'' [] [Element 0 ''head'' [] [], Element 0 ''body'' [] [?p1, ?img', ?p2]]]"
  have roots2: "contentRoots ?again = [?p1, ?img', ?p2]"
    by (simp add: contentRoots_def dom_eval)
  have t1: "TrimSpace ''Hello'' = ''Hello''" by (simp add: trim_eval)
  have t3: "TrimSpace ''World'' = ''World''" by (simp add: trim_eval)
  have tr0: "TrimRightSpace [] = []"
    by (simp add: TrimRightSpace_def stripLeft.simps spaceRunes_def HasPrefix_def)
  have e1: "emitNode ?p1 = ''Hello'' @ [CHR 0x0A, CHR 0x0A]"
    by (simp add: g hasClass_def emitGeneric_def ConvertString_def ruleP_def TrimTrailingSpaces_def t0 t1 tr0)
  have e3: "emitNode ?p2 = ''World'' @ [CHR 0x0A, CHR 0x0A]"
    by (simp add: g hasClass_def emitGeneric_def ConvertString_def ruleP_def TrimTrailingSpaces_def t0 t3 tr0)
  have b: "path_Base ''/images/2024-01-test/a.jpg'' = ''a.jpg''" by (simp add: path_eval)
  have md: "selecToMD ?img' = ''![a.jpg](/images/2024-01-test/a.jpg)'' @ [CHR 0x0A, CHR 0x0A]"
    by (simp add: ruleImg_def imageRef_def altOf_def AttrOr_def Attr_def t0 b)
  have ti: "TrimSpace (''![a.jpg](/images/2024-01-test/a.jpg)'' @ [CHR 0x0A, CHR 0x0A]) =
      ''![a.jpg](/images/2024-01-test/a.jpg)''"
    by (simp add: trim_eval)
  have ti2: "TrimSpace ''![a.jpg](/images/2024-01-test/a.jpg)'' = ''![a.jpg](/images/2024-01-test/a.jpg)''"
    by (simp add: trim_eval)
  have tri: "TrimRightSpace ''![a.jpg](/images/2024-01-test/a.jpg)'' = ''![a.jpg](/images/2024-01-test/a.jpg)''"
    by (simp add: TrimRightSpace_def stripLeft.simps spaceRunes_def HasPrefix_def)
  have cv: "ConvertString ?img' = ''![a.jpg](/images/2024-01-test/a.jpg)''"
    unfolding ConvertString_def md ti by (simp add: TrimTrailingSpaces_def tri)
  have e2: "emitNode ?img' = ''![a.jpg](/images/2024-01-test/a.jpg)'' @ [CHR 0x0A]"
    by (simp add: hasClass_def emitGeneric_def cv ti2 HasSuffix_def)
  have tt: "TrimSpace (''Hello'' @ [CHR 0x0A, CHR 0x0A] @ ''![a.jpg](/images/2024-01-test/a.jpg)'' @ [CHR 0x0A]
        @ ''World'' @ [CHR 0x0A, CHR 0x0A]) =
      ''Hello'' @ [CHR 0x0A, CHR 0x0A] @ ''![a.jpg](/images/2024-01-test/a.jpg)'' @ [CHR 0x0A] @ ''World''"
    by (simp add: trim_eval)
  have "toMarkdownPreserveOrder ?again =
      ''Hello'' @ [CHR 0x0A, CHR 0x0A] @ ''![a.jpg](/images/2024-01-test/a.jpg)'' @ [CHR 0x0A] @ ''World''"
    unfolding toMarkdownPreserveOrder_def roots2 foldl.simps e1 e2 e3 using tt by simp
  moreover have "started ?dl = [(''https://x/a.jpg'', ''static/images/2024-01-test/a.jpg'')]"
    by (simp add: Schedule_def newDownloader_def)
  ultimately show ?thesis unfolding rw by simp
qed

end
